theory Spec2Isabelle
  imports Main "HOL-Library.Sublist" "HOL-Library.Word"
begin

section \<open>Strings and the character tables\<close>

text \<open>
  A Python \<open>str\<close> is a sequence of Unicode code points, and \<open>len\<close> counts code points.
  The source uses the en dash (U+2013) and the em dash (U+2014), which do not fit into an
  8-bit \<open>char\<close>, so a \<open>str\<close> is a list of code points. \<open>u\<close> turns an ASCII literal into
  such a list; a backslash is written as its code point 92.
\<close>

type_synonym str = "nat list"

definition u :: "string \<Rightarrow> str" where
  "u s = map of_char s"

definition ascii_lower :: "nat \<Rightarrow> nat" where
  "ascii_lower c = (if 65 \<le> c \<and> c \<le> 90 then c + 32 else c)"

definition ascii_letter :: "nat \<Rightarrow> bool" where
  "ascii_letter c = ((65 \<le> c \<and> c \<le> 90) \<or> (97 \<le> c \<and> c \<le> 122))"

definition ascii_digit :: "nat \<Rightarrow> bool" where
  "ascii_digit c = (48 \<le> c \<and> c \<le> 57)"

text \<open>
  The Unicode character database belongs to the Python runtime, not to the repository.
  On ASCII its content is written out below; what it says about code points from 128 on
  is a parameter of the model:
  \<^item> \<open>uni_decimal\<close>: the code point is a decimal digit (category Nd), what \<open>\d\<close> matches;
  \<^item> \<open>uni_alnum\<close>: \<open>str.isalnum\<close>, which with the underscore is what \<open>\w\<close> matches
    and what \<open>\b\<close> is defined by;
  \<^item> \<open>uni_ci\<close>: whether a pattern literal matches a character under \<open>re.IGNORECASE\<close>;
  \<^item> \<open>uni_lower\<close>: \<open>str.lower\<close> on a string that has a non-ASCII character.
\<close>

record unicode_db =
  uni_decimal :: "nat \<Rightarrow> bool"
  uni_alnum :: "nat \<Rightarrow> bool"
  uni_ci :: "nat \<Rightarrow> nat \<Rightarrow> bool"
  uni_lower :: "str \<Rightarrow> str"

text \<open>
  The tables on the Latin-1 supplement (code points 128 to 255), where no code point is a
  decimal digit; beyond 255 this instance knows no digit and no letter.
\<close>

definition latin1_db :: unicode_db where
  "latin1_db = \<lparr>
     uni_decimal = (\<lambda>c. False),
     uni_alnum = (\<lambda>c. c \<in> {170, 178, 179, 181, 185, 186, 188, 189, 190}
                     \<or> (192 \<le> c \<and> c \<le> 214) \<or> (216 \<le> c \<and> c \<le> 246)
                     \<or> (248 \<le> c \<and> c \<le> 255)),
     uni_ci = (\<lambda>p c. (if (192 \<le> p \<and> p \<le> 214) \<or> (216 \<le> p \<and> p \<le> 222) then p + 32 else p)
                    = (if (192 \<le> c \<and> c \<le> 214) \<or> (216 \<le> c \<and> c \<le> 222) then c + 32 else c)),
     uni_lower = map (\<lambda>c. if (65 \<le> c \<and> c \<le> 90) \<or> (192 \<le> c \<and> c \<le> 214)
                               \<or> (216 \<le> c \<and> c \<le> 222) then c + 32 else c) \<rparr>"

definition is_decimal :: "unicode_db \<Rightarrow> nat \<Rightarrow> bool" where
  "is_decimal db c = (if c < 128 then ascii_digit c else uni_decimal db c)"

definition is_word :: "unicode_db \<Rightarrow> nat \<Rightarrow> bool" where
  "is_word db c =
     (if c < 128 then ascii_letter c \<or> ascii_digit c \<or> c = 95
      else uni_decimal db c \<or> uni_alnum db c)"

text \<open>
  \<open>str.isspace\<close>, which is also what \<open>\s\<close> matches in a \<open>str\<close> pattern and what
  \<open>str.strip()\<close> removes.
\<close>

definition is_space :: "nat \<Rightarrow> bool" where
  "is_space c =
     ((9 \<le> c \<and> c \<le> 13) \<or> (28 \<le> c \<and> c \<le> 32) \<or> c = 133 \<or> c = 160 \<or> c = 5760
      \<or> (8192 \<le> c \<and> c \<le> 8202) \<or> c = 8232 \<or> c = 8233 \<or> c = 8239 \<or> c = 8287
      \<or> c = 12288)"

text \<open>
  A literal of a pattern against a character of the text. Without \<open>re.IGNORECASE\<close> the
  two are equal. With it, a literal that has no case (an ASCII non-letter) still matches
  only itself, two ASCII characters match when their lower-case forms agree, and the
  case tables decide the rest.
\<close>

definition lit_match :: "unicode_db \<Rightarrow> bool \<Rightarrow> nat \<Rightarrow> nat \<Rightarrow> bool" where
  "lit_match db ic p c =
     (if \<not> ic then c = p
      else if p < 128 \<and> \<not> ascii_letter p then c = p
      else if p < 128 \<and> c < 128 then ascii_lower c = ascii_lower p
      else uni_ci db p c)"

definition str_lower :: "unicode_db \<Rightarrow> str \<Rightarrow> str" where
  "str_lower db s = (if list_all (\<lambda>c. c < 128) s then map ascii_lower s else uni_lower db s)"

section \<open>Regular expressions: the part of \<open>re\<close> the program uses\<close>

datatype re_error =
    Unterminated_character_set
  | Missing_closing_paren
  | Unbalanced_paren
  | Nothing_to_repeat
  | Multiple_repeat
  | Bad_escape
  | Bad_character_range
  | Unsupported_syntax

datatype category = Cat_digit | Cat_space

datatype set_item = Chr nat | Rng nat nat

datatype rx =
    Lit nat
  | In bool "set_item list"
  | Category category
  | Boundary
  | Eps
  | Seq rx rx
  | Alt rx rx
  | Rep nat "nat option" rx
  | Grp rx

subsection \<open>Parsing a pattern\<close>

text \<open>
  The parser reads a pattern from left to right, as \<open>re\<close>'s own parser does, and raises
  what it raises: a \<open>[\<close> whose \<open>]\<close> never comes is an unterminated character set, a
  \<open>(\<close> without its \<open>)\<close> is a missing parenthesis, a backslash followed by a character that
  is not a letter or a digit stands for that character. \<open>Unsupported_syntax\<close> marks
  the constructs of \<open>re\<close> that no pattern of the program uses.

  A frame holds the finished alternatives of an open group, the items of the current
  alternative (latest first), and whether the group captures.
\<close>

datatype frame = Frame (branches: "rx list") (items: "rx list") (capturing: bool)

fun seq_of :: "rx list \<Rightarrow> rx" where
  "seq_of [] = Eps"
| "seq_of [r] = r"
| "seq_of (r # rs) = Seq r (seq_of rs)"

fun alt_of :: "rx list \<Rightarrow> rx" where
  "alt_of [] = Eps"
| "alt_of [r] = r"
| "alt_of (r # rs) = Alt r (alt_of rs)"

definition close_frame :: "frame \<Rightarrow> rx" where
  "close_frame fr = alt_of (rev (seq_of (rev (items fr)) # branches fr))"

definition push :: "rx \<Rightarrow> frame \<Rightarrow> frame" where
  "push r fr = Frame (branches fr) (r # items fr) (capturing fr)"

definition next_branch :: "frame \<Rightarrow> frame" where
  "next_branch fr = Frame (seq_of (rev (items fr)) # branches fr) [] (capturing fr)"

fun repeat_top :: "nat \<Rightarrow> nat option \<Rightarrow> frame \<Rightarrow> re_error + frame" where
  "repeat_top lo hi (Frame bs [] cap) = Inl Nothing_to_repeat"
| "repeat_top lo hi (Frame bs (Boundary # its) cap) = Inl Nothing_to_repeat"
| "repeat_top lo hi (Frame bs (Rep l h r # its) cap) = Inl Multiple_repeat"
| "repeat_top lo hi (Frame bs (r # its) cap) = Inr (Frame bs (Rep lo hi r # its) cap)"

text \<open>
  The items of a character set, after \<open>[\<close> or \<open>[^\<close>: \<open>k\<close> counts the characters read. A
  \<open>]\<close> closes the set unless it is its first character; \<open>a-z\<close> is a range; the end of
  the pattern before the \<open>]\<close> is an error.
\<close>

fun set_items :: "str \<Rightarrow> set_item list \<Rightarrow> nat \<Rightarrow> re_error + (set_item list \<times> nat)" where
  "set_items [] acc k = Inl Unterminated_character_set"
| "set_items [c] acc k =
     (if c = 93 \<and> acc \<noteq> [] then Inr (rev acc, Suc k)
      else if c = 92 then Inl Bad_escape
      else Inl Unterminated_character_set)"
| "set_items (c # d # cs) acc k =
     (if c = 93 \<and> acc \<noteq> [] then Inr (rev acc, Suc k)
      else if c = 92 then Inl Unsupported_syntax
      else if d = 45 then
        (case cs of
           [] \<Rightarrow> Inl Unterminated_character_set
         | that # cs' \<Rightarrow>
             if that = 93 then Inr (rev (Chr 45 # Chr c # acc), k + 3)
             else if that = 92 then Inl Unsupported_syntax
             else if that < c then Inl Bad_character_range
             else set_items cs' (Rng c that # acc) (k + 3))
      else set_items (d # cs) (Chr c # acc) (Suc k))"

definition parse_set :: "str \<Rightarrow> re_error + (rx \<times> nat)" where
  "parse_set cs =
     (if take 1 cs = [94] then
        (case set_items (drop 1 cs) [] 1 of Inl e \<Rightarrow> Inl e | Inr (its, k) \<Rightarrow> Inr (In True its, k))
      else
        (case set_items cs [] 0 of Inl e \<Rightarrow> Inl e | Inr (its, k) \<Rightarrow> Inr (In False its, k)))"

text \<open>
  \<open>{m}\<close>, \<open>{m,n}\<close>, \<open>{m,}\<close> and \<open>{,n}\<close> after the \<open>{\<close>; anything else leaves the \<open>{\<close> a
  literal. The result is the bounds and the number of characters read.
\<close>

definition digits_val :: "str \<Rightarrow> nat" where
  "digits_val ds = foldl (\<lambda>n d. 10 * n + (d - 48)) 0 ds"

definition parse_braces :: "str \<Rightarrow> (nat \<times> nat option \<times> nat) option" where
  "parse_braces cs =
     (if take 1 cs = [125] then None
      else
        let lo = takeWhile ascii_digit cs;
            r1 = dropWhile ascii_digit cs;
            comma = (take 1 r1 = [44]);
            hi = (if comma then takeWhile ascii_digit (drop 1 r1) else lo);
            r2 = (if comma then dropWhile ascii_digit (drop 1 r1) else r1)
        in if take 1 r2 = [125]
           then Some (if lo = [] then 0 else digits_val lo,
                      if hi = [] then None else Some (digits_val hi),
                      length cs - length r2 + 1)
           else None)"

definition escape :: "nat \<Rightarrow> re_error + rx" where
  "escape e =
     (if e = 100 then Inr (Category Cat_digit)
      else if e = 115 then Inr (Category Cat_space)
      else if e = 98 then Inr Boundary
      else if e < 128 \<and> (ascii_letter e \<or> ascii_digit e) then Inl Unsupported_syntax
      else Inr (Lit e))"

fun parse :: "str \<Rightarrow> frame \<Rightarrow> frame list \<Rightarrow> re_error + rx" where
  "parse [] cur encl = (if encl = [] then Inr (close_frame cur) else Inl Missing_closing_paren)"
| "parse (c # cs) cur encl =
     (if c = 40 then
        (if take 1 cs = [63] then
           (if take 2 cs = [63, 58] then parse (drop 2 cs) (Frame [] [] False) (cur # encl)
            else Inl Unsupported_syntax)
         else parse cs (Frame [] [] True) (cur # encl))
      else if c = 41 then
        (case encl of
           [] \<Rightarrow> Inl Unbalanced_paren
         | par # rest \<Rightarrow>
             parse cs (push (if capturing cur then Grp (close_frame cur) else close_frame cur) par) rest)
      else if c = 124 then parse cs (next_branch cur) encl
      else if c = 91 then
        (case parse_set cs of
           Inl e \<Rightarrow> Inl e
         | Inr (r, k) \<Rightarrow> parse (drop k cs) (push r cur) encl)
      else if c = 92 then
        (case cs of
           [] \<Rightarrow> Inl Bad_escape
         | e # cs' \<Rightarrow> (case escape e of Inl err \<Rightarrow> Inl err | Inr r \<Rightarrow> parse cs' (push r cur) encl))
      else if c = 42 \<or> c = 43 \<or> c = 63 then
        (if take 1 cs = [63] \<or> take 1 cs = [43] then Inl Unsupported_syntax
         else
           (case repeat_top (if c = 43 then 1 else 0) (if c = 63 then Some 1 else None) cur of
              Inl e \<Rightarrow> Inl e
            | Inr cur' \<Rightarrow> parse cs cur' encl))
      else if c = 123 then
        (case parse_braces cs of
           None \<Rightarrow> parse cs (push (Lit c) cur) encl
         | Some (lo, hi, k) \<Rightarrow>
             if take 1 (drop k cs) = [63] \<or> take 1 (drop k cs) = [43] then Inl Unsupported_syntax
             else
               (case repeat_top lo hi cur of
                  Inl e \<Rightarrow> Inl e
                | Inr cur' \<Rightarrow> parse (drop k cs) cur' encl))
      else if c = 46 \<or> c = 94 \<or> c = 36 then Inl Unsupported_syntax
      else parse cs (push (Lit c) cur) encl)"

fun has_set :: "rx \<Rightarrow> bool" where
  "has_set (In neg its) = True"
| "has_set (Seq a b) = (has_set a \<or> has_set b)"
| "has_set (Alt a b) = (has_set a \<or> has_set b)"
| "has_set (Rep lo hi r) = has_set r"
| "has_set (Grp r) = has_set r"
| "has_set r = False"

text \<open>A compiled pattern: the expression and whether \<open>re.IGNORECASE\<close> was given.\<close>

record pattern =
  expr :: rx
  ignorecase :: bool

definition re_compile :: "str \<Rightarrow> bool \<Rightarrow> re_error + pattern" where
  "re_compile src ic =
     (case parse src (Frame [] [] False) [] of
        Inl e \<Rightarrow> Inl e
      | Inr r \<Rightarrow> if ic \<and> has_set r then Inl Unsupported_syntax
                else Inr \<lparr>expr = r, ignorecase = ic\<rparr>)"

subsection \<open>Matching\<close>

text \<open>
  \<open>re\<close> matches by backtracking. \<open>ends db ic s r i\<close> lists the positions where a match
  of \<open>r\<close> that starts at position \<open>i\<close> of \<open>s\<close> can end, in the order in which backtracking
  tries them: the first alternative before the second, more repetitions before fewer.
  The head of the list is the match \<open>re\<close> reports; the list is empty when there is none.
\<close>

fun in_item :: "nat \<Rightarrow> set_item \<Rightarrow> bool" where
  "in_item c (Chr d) = (c = d)"
| "in_item c (Rng lo hi) = (lo \<le> c \<and> c \<le> hi)"

fun in_category :: "unicode_db \<Rightarrow> category \<Rightarrow> nat \<Rightarrow> bool" where
  "in_category db Cat_digit c = is_decimal db c"
| "in_category db Cat_space c = is_space c"

text \<open>\<open>\b\<close>: exactly one of the characters before and after the position is a word character.\<close>

definition at_boundary :: "unicode_db \<Rightarrow> str \<Rightarrow> nat \<Rightarrow> bool" where
  "at_boundary db s i =
     ((0 < i \<and> i \<le> length s \<and> is_word db (s ! (i - 1))) \<noteq> (i < length s \<and> is_word db (s ! i)))"

definition one_char :: "(nat \<Rightarrow> bool) \<Rightarrow> str \<Rightarrow> nat \<Rightarrow> nat list" where
  "one_char P s i = (if i < length s \<and> P (s ! i) then [Suc i] else [])"

text \<open>
  A greedy repetition of a body with matcher \<open>f\<close>, at least \<open>lo\<close> and at most \<open>n\<close> times.
  Once the minimum is reached, an iteration that does not advance is not repeated.
\<close>

primrec rep_ends :: "(nat \<Rightarrow> nat list) \<Rightarrow> nat \<Rightarrow> nat \<Rightarrow> nat \<Rightarrow> nat list" where
  "rep_ends f 0 lo i = (if lo = 0 then [i] else [])"
| "rep_ends f (Suc n) lo i =
     concat (map (rep_ends f n (lo - 1)) (if lo = 0 then filter (\<lambda>j. j \<noteq> i) (f i) else f i))
     @ (if lo = 0 then [i] else [])"

primrec ends :: "unicode_db \<Rightarrow> bool \<Rightarrow> str \<Rightarrow> rx \<Rightarrow> nat \<Rightarrow> nat list" where
  "ends db ic s (Lit p) = one_char (lit_match db ic p) s"
| "ends db ic s (In neg its) = one_char (\<lambda>c. list_ex (in_item c) its \<noteq> neg) s"
| "ends db ic s (Category k) = one_char (in_category db k) s"
| "ends db ic s Boundary = (\<lambda>i. if at_boundary db s i then [i] else [])"
| "ends db ic s Eps = (\<lambda>i. [i])"
| "ends db ic s (Seq a b) = (\<lambda>i. concat (map (ends db ic s b) (ends db ic s a i)))"
| "ends db ic s (Alt a b) = (\<lambda>i. ends db ic s a i @ ends db ic s b i)"
| "ends db ic s (Rep lo hi r) =
     rep_ends (ends db ic s r) (case hi of Some h \<Rightarrow> h | None \<Rightarrow> lo + length s) lo"
| "ends db ic s (Grp r) = ends db ic s r"

text \<open>
  The first match at or after \<open>pos\<close>, as \<open>(start, end)\<close>: the leftmost start that has a
  match, and there the match backtracking finds first.
\<close>

definition first_match :: "unicode_db \<Rightarrow> pattern \<Rightarrow> str \<Rightarrow> nat \<Rightarrow> (nat \<times> nat) option" where
  "first_match db p s pos =
     (case find (\<lambda>i. ends db (ignorecase p) s (expr p) i \<noteq> []) [pos ..< Suc (length s)] of
        None \<Rightarrow> None
      | Some i \<Rightarrow> Some (i, hd (ends db (ignorecase p) s (expr p) i)))"

text \<open>\<open>pattern.search(s)\<close>, used for its truth value.\<close>

definition re_search :: "unicode_db \<Rightarrow> pattern \<Rightarrow> str \<Rightarrow> bool" where
  "re_search db p s = (first_match db p s 0 \<noteq> None)"

text \<open>
  \<open>pattern.sub(repl, s)\<close> from position \<open>pos\<close> on: the text before each match is kept, the
  match is replaced, and the scan goes on behind it. After an empty match the next
  character is kept and the scan goes on behind that character.
\<close>

function sub_from :: "unicode_db \<Rightarrow> pattern \<Rightarrow> str \<Rightarrow> str \<Rightarrow> nat \<Rightarrow> str" where
  "sub_from db p repl s pos =
     (case first_match db p s pos of
        None \<Rightarrow> drop pos s
      | Some (i, j) \<Rightarrow>
          take (i - pos) (drop pos s) @ repl @
          (if i < j then sub_from db p repl s j
           else if i < length s then s ! i # sub_from db p repl s (Suc i)
           else []))"
  by pat_completeness auto
termination
proof -
  have range: "pos \<le> i \<and> i \<le> length s"
    if "first_match db p s pos = Some (i, j)" for db p s pos i j
  proof -
    from that
    have "find (\<lambda>i. ends db (ignorecase p) s (expr p) i \<noteq> []) [pos ..< Suc (length s)] = Some i"
      by (auto simp del: upt_Suc simp: first_match_def split: option.splits)
    then have "i \<in> set [pos ..< Suc (length s)]"
      unfolding find_Some_iff by (metis nth_mem)
    then show ?thesis by auto
  qed
  show ?thesis
    by (relation "measure (\<lambda>(db, p, repl, s, pos). Suc (length s) - pos)")
      (auto dest: range)
qed

declare sub_from.simps [simp del]

text \<open>\<open>re.sub(pattern, repl, s)\<close>: the pattern is compiled when the call is made.\<close>

definition re_sub :: "unicode_db \<Rightarrow> str \<Rightarrow> str \<Rightarrow> str \<Rightarrow> re_error + str" where
  "re_sub db src repl s =
     (case re_compile src False of
        Inl e \<Rightarrow> Inl e
      | Inr p \<Rightarrow> Inr (sub_from db p repl s 0))"

text \<open>
  \<open>re.split(pattern, s, maxsplit=1)[0]\<close>: the text before the first match, or all of
  \<open>s\<close> when nothing matches.
\<close>

definition re_split1_head :: "unicode_db \<Rightarrow> str \<Rightarrow> str \<Rightarrow> re_error + str" where
  "re_split1_head db src s =
     (case re_compile src False of
        Inl e \<Rightarrow> Inl e
      | Inr p \<Rightarrow> Inr (case first_match db p s 0 of None \<Rightarrow> s | Some (i, j) \<Rightarrow> take i s))"

text \<open>\<open>s.strip()\<close> and \<open>s.strip(chars)\<close>.\<close>

definition strip_by :: "(nat \<Rightarrow> bool) \<Rightarrow> str \<Rightarrow> str" where
  "strip_by P s = rev (dropWhile P (rev (dropWhile P s)))"

definition strip :: "str \<Rightarrow> str" where
  "strip s = strip_by is_space s"

definition strip_chars :: "str \<Rightarrow> str \<Rightarrow> str" where
  "strip_chars cs s = strip_by (\<lambda>c. c \<in> set cs) s"

section \<open>The program\<close>

subsection \<open>Module constants\<close>

definition URLS :: "str list" where
  "URLS =
     [u ''https://www.seeing-stars.com/Died/2010s.shtml'',
      u ''https://www.seeing-stars.com/Died/2000s.shtml'',
      u ''https://www.seeing-stars.com/Died/90s.shtml'',
      u ''https://www.seeing-stars.com/Died/80s.shtml'',
      u ''https://www.seeing-stars.com/Died/70s.shtml'',
      u ''https://www.seeing-stars.com/Died/60s.shtml'',
      u ''https://www.seeing-stars.com/Died/50s_20s.shtml#20s'']"

definition OUTFILE :: str where
  "OUTFILE = u ''seeing-stars-summaries.txt''"

definition MONTH_RE :: str where
  "MONTH_RE = u ''(Jan(?:uary)?|Feb(?:ruary)?|Mar(?:ch)?|Apr(?:il)?|May|Jun(?:e)?|Jul(?:y)?|Aug(?:ust)?|Sep(?:t(?:ember)?)?|Oct(?:ober)?|Nov(?:ember)?|Dec(?:ember)?)''"

text \<open>
  The text of \<open>DATE_PAT\<close> after the f-string is formatted: \<open>MONTH_RE\<close> is put in and each
  \<open>{{\<close>, \<open>}}\<close> becomes one brace. It is compiled with \<open>re.IGNORECASE\<close>.
\<close>

definition DATE_SRC :: str where
  "DATE_SRC =
     u ''('' @ MONTH_RE @ [92] @ u ''s+'' @ [92] @ u ''d{1,2},'' @ [92] @ u ''s+'' @ [92] @ u ''d{4})''
     @ u ''|('' @ [92] @ u ''d{1,2}/'' @ [92] @ u ''d{1,2}/'' @ [92] @ u ''d{2,4})''
     @ u ''|'' @ [92] @ u ''b(19'' @ [92] @ u ''d{2}|20'' @ [92] @ u ''d{2})'' @ [92] @ u ''b''"

definition WIKI_SRC :: str where
  "WIKI_SRC = u ''wikipedia'' @ [92] @ u ''.org/wiki/''"

text \<open>The patterns given to \<open>re.sub\<close> and \<open>re.split\<close> inside the functions.\<close>

definition WS_SRC :: str where
  "WS_SRC = [92] @ u ''s+''"

text \<open>
  The pattern of line 120, a raw string: \<open>[-\<close>, en dash, em dash, \<open>]|\<close>, two backslashes,
  \<open>(|\<close>, two backslashes, \<open>[\<close>.
\<close>

definition SPLIT_SRC :: str where
  "SPLIT_SRC = u ''[-'' @ [8211, 8212] @ u '']|'' @ [92, 92] @ u ''(|'' @ [92, 92] @ u ''[''"

definition TOKEN_SRC :: str where
  "TOKEN_SRC = u ''[^a-z0-9]+''"

subsection \<open>What a run reads from outside\<close>

text \<open>
  \<open>requests\<close>, the codecs and \<open>BeautifulSoup\<close> are libraries, and the network is not
  part of the program: a run is given
  \<^item> \<open>http_get\<close>: for a URL, the response of \<open>requests.get\<close> after \<open>raise_for_status\<close>,
    or the text \<open>str(e)\<close> of the exception one of the two raised;
  \<^item> \<open>codec_decode\<close>: \<open>bytes.decode(enc, errors="replace")\<close> for an encoding name, which
    raises for an unknown name or a codec that fails;
  \<^item> \<open>soup_text\<close>: the text \<open>get_text("\n")\<close> returns for a page once each \<open>br\<close> is
    replaced by a newline;
  \<^item> \<open>soup_hrefs\<close>: \<open>a.get("href")\<close> for each \<open>a\<close> of the page, in document order;
  \<^item> \<open>db\<close>: the character tables.
\<close>

datatype decode_exn = Lookup_error | Unicode_decode_error

datatype fetch_exn = Request_exception str

record response =
  content :: "8 word list"
  encoding :: "str option"
  apparent_encoding :: "str option"

record env =
  db :: unicode_db
  http_get :: "str \<Rightarrow> fetch_exn + response"
  codec_decode :: "str \<Rightarrow> 8 word list \<Rightarrow> decode_exn + str"
  soup_text :: "str \<Rightarrow> str"
  soup_hrefs :: "str \<Rightarrow> str option list"

subsection \<open>\<open>fetch_html\<close>\<close>

text \<open>\<open>a or b\<close> on optional strings: \<open>None\<close> and the empty string are false.\<close>

definition str_or :: "str option \<Rightarrow> str \<Rightarrow> str" where
  "str_or a b = (case a of None \<Rightarrow> b | Some x \<Rightarrow> if x = [] then b else x)"

definition chosen_encoding :: "response \<Rightarrow> str" where
  "chosen_encoding r = str_or (encoding r) (str_or (apparent_encoding r) (u ''utf-8''))"

text \<open>Latin-1 maps each byte to the code point of the same number, so it decodes every input.\<close>

definition latin1_decode :: "8 word list \<Rightarrow> decode_exn + str" where
  "latin1_decode bs = Inr (map unat bs)"

definition decode_body :: "env \<Rightarrow> response \<Rightarrow> decode_exn + str" where
  "decode_body ev r =
     (case codec_decode ev (chosen_encoding r) (content r) of
        Inr text \<Rightarrow> Inr text
      | Inl e \<Rightarrow> latin1_decode (content r))"

datatype fetch_failure = Fetch_request fetch_exn | Fetch_decode decode_exn

definition fetch_html :: "env \<Rightarrow> str \<Rightarrow> fetch_failure + str" where
  "fetch_html ev url =
     (case http_get ev url of
        Inl e \<Rightarrow> Inl (Fetch_request e)
      | Inr r \<Rightarrow> (case decode_body ev r of Inl e \<Rightarrow> Inl (Fetch_decode e) | Inr text \<Rightarrow> Inr text))"

text \<open>\<open>str(e)\<close> in the \<open>[ERROR]\<close> line.\<close>

fun exn_str :: "fetch_failure \<Rightarrow> str" where
  "exn_str (Fetch_request (Request_exception msg)) = msg"
| "exn_str (Fetch_decode Lookup_error) = u ''unknown encoding''"
| "exn_str (Fetch_decode Unicode_decode_error) = u ''codec can not decode''"

subsection \<open>\<open>clean\<close>\<close>

definition clean :: "unicode_db \<Rightarrow> str \<Rightarrow> re_error + str" where
  "clean d s = (case re_sub d WS_SRC (u '' '') s of Inl e \<Rightarrow> Inl e | Inr t \<Rightarrow> Inr (strip t))"

subsection \<open>\<open>main\<close>\<close>

record run_state =
  out :: "str list"
  total_lines :: nat

definition append_out :: "str list \<Rightarrow> run_state \<Rightarrow> run_state" where
  "append_out ls st = st\<lparr>out := out st @ ls\<rparr>"

text \<open>\<open>page_text.split("\n")\<close>\<close>

fun split_on :: "nat \<Rightarrow> str \<Rightarrow> str list" where
  "split_on c [] = [[]]"
| "split_on c (x # xs) =
     (if x = c then [] # split_on c xs
      else (case split_on c xs of [] \<Rightarrow> [[x]] | r # rs \<Rightarrow> (x # r) # rs))"

text \<open>\<open>[clean(x) for x in page_text.split("\n") if clean(x)]\<close>\<close>

fun clean_lines :: "unicode_db \<Rightarrow> str list \<Rightarrow> re_error + str list" where
  "clean_lines d [] = Inr []"
| "clean_lines d (x # xs) =
     (case clean d x of
        Inl e \<Rightarrow> Inl e
      | Inr c \<Rightarrow>
          if c \<noteq> [] then
            (case clean d x of
               Inl e \<Rightarrow> Inl e
             | Inr c' \<Rightarrow> (case clean_lines d xs of Inl e \<Rightarrow> Inl e | Inr r \<Rightarrow> Inr (c' # r)))
          else clean_lines d xs)"

definition page_lines :: "unicode_db \<Rightarrow> str \<Rightarrow> re_error + str list" where
  "page_lines d page_text = clean_lines d (split_on 10 page_text)"

text \<open>The loop over the anchors (lines 94 to 98).\<close>

fun collect_wiki_links :: "unicode_db \<Rightarrow> pattern \<Rightarrow> str option list \<Rightarrow> str list" where
  "collect_wiki_links d wiki_pat [] = []"
| "collect_wiki_links d wiki_pat (a # as) =
     (let href = str_or a [] in
      if re_search d wiki_pat href then href # collect_wiki_links d wiki_pat as
      else collect_wiki_links d wiki_pat as)"

text \<open>The loop that keeps the date-like lines (lines 101 to 106); \<open>kept\<close> is the list so far.\<close>

fun keep_lines :: "unicode_db \<Rightarrow> pattern \<Rightarrow> str list \<Rightarrow> str list \<Rightarrow> str list" where
  "keep_lines d date_pat [] kept = kept"
| "keep_lines d date_pat (ln # lns) kept =
     (if length ln < 10 then keep_lines d date_pat lns kept
      else if re_search d date_pat ln then keep_lines d date_pat lns (kept @ [ln])
      else keep_lines d date_pat lns kept)"

text \<open>Line 120.\<close>

definition name_guess :: "unicode_db \<Rightarrow> str \<Rightarrow> re_error + str" where
  "name_guess d ln =
     (case re_split1_head d SPLIT_SRC ln of Inl e \<Rightarrow> Inl e | Inr h \<Rightarrow> clean d h)"

text \<open>Line 124.\<close>

definition name_token :: "unicode_db \<Rightarrow> str \<Rightarrow> re_error + str" where
  "name_token d name =
     (case re_sub d TOKEN_SRC (u ''_'') (str_lower d name) of
        Inl e \<Rightarrow> Inl e
      | Inr t \<Rightarrow> Inr (strip_chars (u ''_'') t))"

text \<open>The loop over the links (lines 125 to 128); \<open>wiki_guess\<close> starts as the empty string.\<close>

fun first_link :: "unicode_db \<Rightarrow> str \<Rightarrow> str list \<Rightarrow> str" where
  "first_link d token [] = []"
| "first_link d token (w # ws) =
     (if token \<noteq> [] \<and> sublist token (str_lower d w) then w else first_link d token ws)"

definition wiki_guess :: "unicode_db \<Rightarrow> str list \<Rightarrow> str \<Rightarrow> re_error + str" where
  "wiki_guess d wiki_links name =
     (case name_token d name of Inl e \<Rightarrow> Inl e | Inr token \<Rightarrow> Inr (first_link d token wiki_links))"

text \<open>The three values computed for one kept line (lines 120 to 128).\<close>

record entry =
  entry_name :: str
  summary_line :: str
  wikipedia_link :: str

definition format_entry :: "unicode_db \<Rightarrow> str list \<Rightarrow> str \<Rightarrow> re_error + entry" where
  "format_entry d wiki_links ln =
     (case name_guess d ln of
        Inl e \<Rightarrow> Inl e
      | Inr name \<Rightarrow>
          (case wiki_guess d wiki_links name of
             Inl e \<Rightarrow> Inl e
           | Inr w \<Rightarrow> Inr \<lparr>entry_name = name, summary_line = ln, wikipedia_link = w\<rparr>))"

definition entry_block :: "entry \<Rightarrow> str list" where
  "entry_block e =
     [u ''- Name: '' @ entry_name e,
      u ''  Summary line: '' @ summary_line e,
      u ''  Wikipedia: '' @ wikipedia_link e,
      []]"

text \<open>
  The loop over the kept lines (lines 117 to 133). An exception ends the run, and with it
  the counter that line 118 has just increased; so the model counts the entry when it is
  written.
\<close>

fun write_entries :: "unicode_db \<Rightarrow> str list \<Rightarrow> str list \<Rightarrow> run_state \<Rightarrow> re_error + run_state" where
  "write_entries d wiki_links [] st = Inr st"
| "write_entries d wiki_links (ln # lns) st =
     (case format_entry d wiki_links ln of
        Inl e \<Rightarrow> Inl e
      | Inr e \<Rightarrow>
          write_entries d wiki_links lns
            (append_out (entry_block e) (st\<lparr>total_lines := total_lines st + 1\<rparr>)))"

definition source_banner :: "str \<Rightarrow> str list" where
  "source_banner url = [replicate 90 61, u ''SOURCE: '' @ url, replicate 90 61]"

definition debug_block :: "str list \<Rightarrow> str list" where
  "debug_block lines =
     u ''[DEBUG] No date-like lines found. First 200 raw lines from page:''
     # map (\<lambda>ln. u ''- RAW: '' @ ln) (take 200 lines) @ [[]]"

text \<open>One turn of the loop over \<open>URLS\<close> (lines 72 to 135).\<close>

definition process_source ::
  "env \<Rightarrow> pattern \<Rightarrow> pattern \<Rightarrow> str \<Rightarrow> run_state \<Rightarrow> re_error + run_state" where
  "process_source ev date_pat wiki_pat url st0 =
     (let st = append_out (source_banner url) st0 in
      case fetch_html ev url of
        Inl e \<Rightarrow> Inr (append_out [u ''[ERROR] Could not fetch page: '' @ exn_str e, []] st)
      | Inr html \<Rightarrow>
          (case page_lines (db ev) (soup_text ev html) of
             Inl e \<Rightarrow> Inl e
           | Inr lines \<Rightarrow>
               let wiki_links = collect_wiki_links (db ev) wiki_pat (soup_hrefs ev html);
                   kept = keep_lines (db ev) date_pat lines []
               in if kept = [] then Inr (append_out (debug_block lines) st)
                  else
                    (case write_entries (db ev) wiki_links kept st of
                       Inl e \<Rightarrow> Inl e
                     | Inr st' \<Rightarrow> Inr (append_out [[]] st'))))"

fun process_all ::
  "env \<Rightarrow> pattern \<Rightarrow> pattern \<Rightarrow> str list \<Rightarrow> run_state \<Rightarrow> re_error + run_state" where
  "process_all ev date_pat wiki_pat [] st = Inr st"
| "process_all ev date_pat wiki_pat (url # urls) st =
     (case process_source ev date_pat wiki_pat url st of
        Inl e \<Rightarrow> Inl e
      | Inr st' \<Rightarrow> process_all ev date_pat wiki_pat urls st')"

definition header :: "str \<Rightarrow> str list" where
  "header generated =
     [u ''Seeing-Stars Summary Extract'',
      u ''Generated: '' @ generated,
      u ''Requested fields: Name | Date of death | Location | Cause | Wikipedia (if available)'',
      u ''NOTE: This is a loose extraction. Some lines may need manual cleanup.'',
      []]"

text \<open>\<open>"\n".join(out)\<close>\<close>

fun join_nl :: "str list \<Rightarrow> str" where
  "join_nl [] = []"
| "join_nl [x] = x"
| "join_nl (x # xs) = x @ 10 # join_nl xs"

text \<open>
  A run ends with an unhandled exception or with the count it prints. The files are a map
  from names to contents; \<open>generated\<close> is the text of \<open>datetime.now()\<close> in the header.
\<close>

datatype outcome = Raised re_error | Done nat

type_synonym files = "str \<rightharpoonup> str"

definition main :: "env \<Rightarrow> pattern \<Rightarrow> pattern \<Rightarrow> str \<Rightarrow> files \<Rightarrow> outcome \<times> files" where
  "main ev date_pat wiki_pat generated fs =
     (case process_all ev date_pat wiki_pat URLS \<lparr>out = header generated, total_lines = 0\<rparr> of
        Inl e \<Rightarrow> (Raised e, fs)
      | Inr st \<Rightarrow> (Done (total_lines st), fs(OUTFILE \<mapsto> join_nl (out st))))"

text \<open>
  The script: the module compiles \<open>DATE_PAT\<close> and \<open>WIKI_PAT\<close> when it is loaded, then calls
  \<open>main\<close>.
\<close>

definition script :: "env \<Rightarrow> str \<Rightarrow> files \<Rightarrow> outcome \<times> files" where
  "script ev generated fs =
     (case re_compile DATE_SRC True of
        Inl e \<Rightarrow> (Raised e, fs)
      | Inr date_pat \<Rightarrow>
          (case re_compile WIKI_SRC True of
             Inl e \<Rightarrow> (Raised e, fs)
           | Inr wiki_pat \<Rightarrow> main ev date_pat wiki_pat generated fs))"

subsection \<open>The compiled patterns\<close>

text \<open>
  What the parser returns for \<open>DATE_SRC\<close> and \<open>WIKI_SRC\<close>, written out; the lemmas
  \<open>compile_DATE\<close> and \<open>compile_WIKI\<close> check the two against the parser.
\<close>

definition lits :: "string \<Rightarrow> rx" where
  "lits w = seq_of (map Lit (u w))"

definition opt :: "rx \<Rightarrow> rx" where
  "opt r = Rep 0 (Some 1) r"

definition month_rx :: "string \<Rightarrow> string \<Rightarrow> rx" where
  "month_rx short rest = seq_of (map Lit (u short) @ [opt (lits rest)])"

definition MONTH_RX :: rx where
  "MONTH_RX =
     Grp (alt_of
       [month_rx ''Jan'' ''uary'', month_rx ''Feb'' ''ruary'', month_rx ''Mar'' ''ch'',
        month_rx ''Apr'' ''il'', lits ''May'', month_rx ''Jun'' ''e'', month_rx ''Jul'' ''y'',
        month_rx ''Aug'' ''ust'',
        seq_of (map Lit (u ''Sep'') @ [opt (seq_of [Lit 116, opt (lits ''ember'')])]),
        month_rx ''Oct'' ''ober'', month_rx ''Nov'' ''ember'', month_rx ''Dec'' ''ember''])"

definition spaces_rx :: rx where
  "spaces_rx = Rep 1 None (Category Cat_space)"

definition digits_rx :: "nat \<Rightarrow> nat \<Rightarrow> rx" where
  "digits_rx lo hi = Rep lo (Some hi) (Category Cat_digit)"

definition TEXT_DATE_RX :: rx where
  "TEXT_DATE_RX =
     Grp (seq_of [MONTH_RX, spaces_rx, digits_rx 1 2, Lit 44, spaces_rx, digits_rx 4 4])"

definition NUM_DATE_RX :: rx where
  "NUM_DATE_RX = Grp (seq_of [digits_rx 1 2, Lit 47, digits_rx 1 2, Lit 47, digits_rx 2 4])"

definition YEAR_RX :: rx where
  "YEAR_RX =
     Grp (alt_of [seq_of [Lit 49, Lit 57, digits_rx 2 2], seq_of [Lit 50, Lit 48, digits_rx 2 2]])"

definition DATE_RX :: rx where
  "DATE_RX = alt_of [TEXT_DATE_RX, NUM_DATE_RX, seq_of [Boundary, YEAR_RX, Boundary]]"

definition DATE_PAT :: pattern where
  "DATE_PAT = \<lparr>expr = DATE_RX, ignorecase = True\<rparr>"

definition WIKI_PAT :: pattern where
  "WIKI_PAT = \<lparr>expr = lits ''wikipedia.org/wiki/'', ignorecase = True\<rparr>"

section \<open>The specification's descriptions\<close>

text \<open>
  The definitions of this section follow the specification's words, not the source; the
  theorems compare them with the program.
\<close>

text \<open>
  Whitespace-collapsed: every maximal run of characters with the property \<open>P\<close> is replaced
  by \<open>repl\<close>.
\<close>

function collapse :: "(nat \<Rightarrow> bool) \<Rightarrow> str \<Rightarrow> str \<Rightarrow> str" where
  "collapse P repl [] = []"
| "collapse P repl (c # cs) =
     (if P c then repl @ collapse P repl (dropWhile P cs) else c # collapse P repl cs)"
  by pat_completeness auto
termination
  by (relation "measure (\<lambda>(P, repl, s). length s)") (auto simp: length_dropWhile_le less_Suc_eq_le)

text \<open>Whitespace-collapsed and trimmed.\<close>

definition spec_clean :: "str \<Rightarrow> str" where
  "spec_clean s = strip (collapse is_space (u '' '') s)"

text \<open>A run state with the lines \<open>pre\<close> put in front of its buffer.\<close>

definition shift :: "str list \<Rightarrow> run_state \<Rightarrow> run_state" where
  "shift pre st = st\<lparr>out := pre @ out st\<rparr>"

text \<open>No two neighbours in the string both have the property \<open>P\<close>.\<close>

fun no_double :: "(nat \<Rightarrow> bool) \<Rightarrow> str \<Rightarrow> bool" where
  "no_double P [] = True"
| "no_double P [x] = True"
| "no_double P (x # y # zs) = (\<not> (P x \<and> P y) \<and> no_double P (y # zs))"

text \<open>
  The token of a name: the name in lower case, with every run of characters that are not
  alphanumeric (not one of \<open>a\<close> to \<open>z\<close> or \<open>0\<close> to \<open>9\<close>) replaced by one underscore, and
  without the underscores at its two ends.
\<close>

definition lower_alnum :: "nat \<Rightarrow> bool" where
  "lower_alnum c = ((97 \<le> c \<and> c \<le> 122) \<or> (48 \<le> c \<and> c \<le> 57))"

definition spec_token :: "unicode_db \<Rightarrow> str \<Rightarrow> str" where
  "spec_token d name =
     strip_by (\<lambda>c. c = 95) (collapse (\<lambda>c. \<not> lower_alnum c) (u ''_'') (str_lower d name))"

text \<open>
  The three date shapes of the Entry Filter. \<open>spells d m w\<close>: the word \<open>w\<close> is \<open>m\<close> up to
  case.
\<close>

definition month_names :: "string list" where
  "month_names =
     [''Jan'', ''January'', ''Feb'', ''February'', ''Mar'', ''March'', ''Apr'', ''April'', ''May'',
      ''Jun'', ''June'', ''Jul'', ''July'', ''Aug'', ''August'', ''Sep'', ''Sept'', ''September'',
      ''Oct'', ''October'', ''Nov'', ''November'', ''Dec'', ''December'']"

definition spells :: "unicode_db \<Rightarrow> str \<Rightarrow> str \<Rightarrow> bool" where
  "spells d m w = list_all2 (lit_match d True) m w"

definition is_month :: "unicode_db \<Rightarrow> str \<Rightarrow> bool" where
  "is_month d w = list_ex (\<lambda>m. spells d (u m) w) month_names"

definition is_spaces :: "str \<Rightarrow> bool" where
  "is_spaces w = (1 \<le> length w \<and> list_all is_space w)"

definition is_digits :: "unicode_db \<Rightarrow> nat \<Rightarrow> nat \<Rightarrow> str \<Rightarrow> bool" where
  "is_digits d lo hi w = (lo \<le> length w \<and> length w \<le> hi \<and> list_all (is_decimal d) w)"

text \<open>\<open>followed_by A B\<close>: a part with the property \<open>A\<close> and, right behind it, a part with \<open>B\<close>.\<close>

definition followed_by :: "(str \<Rightarrow> bool) \<Rightarrow> (str \<Rightarrow> bool) \<Rightarrow> str \<Rightarrow> bool" where
  "followed_by A B w = (\<exists>w1 w2. w = w1 @ w2 \<and> A w1 \<and> B w2)"

text \<open>
  A month, whitespace, a day of one or two digits, a comma, whitespace and a year of four
  digits: "March 4, 1977".
\<close>

definition textual_date :: "unicode_db \<Rightarrow> str \<Rightarrow> bool" where
  "textual_date d =
     followed_by (is_month d) (followed_by is_spaces (followed_by (is_digits d 1 2)
       (followed_by (\<lambda>w. w = u '','') (followed_by is_spaces (is_digits d 4 4)))))"

text \<open>\<open>D{1,2}/D{1,2}/D{2,4}\<close>\<close>

definition numeric_date :: "unicode_db \<Rightarrow> str \<Rightarrow> bool" where
  "numeric_date d =
     followed_by (is_digits d 1 2) (followed_by (\<lambda>w. w = u ''/'') (followed_by (is_digits d 1 2)
       (followed_by (\<lambda>w. w = u ''/'') (is_digits d 2 4))))"

text \<open>A year of four digits from 1900 to 2099: \<open>19\<close> or \<open>20\<close> and two digits.\<close>

definition year_1900_2099 :: "unicode_db \<Rightarrow> str \<Rightarrow> bool" where
  "year_1900_2099 d = followed_by (\<lambda>w. w = u ''19'' \<or> w = u ''20'') (is_digits d 2 2)"

text \<open>
  Standalone: the text before does not end with a word character and the text behind does
  not begin with one.
\<close>

definition standalone :: "unicode_db \<Rightarrow> str \<Rightarrow> str \<Rightarrow> bool" where
  "standalone d pre post =
     ((pre = [] \<or> \<not> is_word d (last pre)) \<and> (post = [] \<or> \<not> is_word d (hd post)))"

text \<open>The line contains a substring of one of the three shapes.\<close>

definition date_like :: "unicode_db \<Rightarrow> str \<Rightarrow> bool" where
  "date_like d ln =
     (\<exists>pre w post. ln = pre @ w @ post \<and>
        (textual_date d w \<or> numeric_date d w \<or> (year_1900_2099 d w \<and> standalone d pre post)))"

text \<open>
  \<open>substr s i j\<close> is \<open>s[i:j]\<close>. \<open>recog d ic s r A\<close>: in \<open>s\<close>, the matches of \<open>r\<close> are the
  slices with the property \<open>A\<close>.
\<close>

definition substr :: "str \<Rightarrow> nat \<Rightarrow> nat \<Rightarrow> str" where
  "substr s i j = take (j - i) (drop i s)"

definition recog :: "unicode_db \<Rightarrow> bool \<Rightarrow> str \<Rightarrow> rx \<Rightarrow> (str \<Rightarrow> bool) \<Rightarrow> bool" where
  "recog d ic s r A =
     (\<forall>i j. i \<le> length s \<longrightarrow>
        (j \<in> set (ends d ic s r i) \<longleftrightarrow> i \<le> j \<and> j \<le> length s \<and> A (substr s i j)))"

section \<open>Example runs\<close>

text \<open>
  An environment for concrete runs: every URL is answered by \<open>get\<close>; the codec registry
  knows no encoding, so that the Latin-1 fallback decodes; the pages are plain text without
  markup and without anchors, for which \<open>get_text\<close> returns the page itself.
\<close>

definition example_env :: "(str \<Rightarrow> fetch_exn + response) \<Rightarrow> env" where
  "example_env get =
     \<lparr>db = latin1_db,
      http_get = get,
      codec_decode = (\<lambda>enc bs. Inl Lookup_error),
      soup_text = (\<lambda>html. html),
      soup_hrefs = (\<lambda>html. [])\<rparr>"

definition page :: "string \<Rightarrow> fetch_exn + response" where
  "page text = Inr \<lparr>content = map of_nat (u text), encoding = None, apparent_encoding = None\<rparr>"

definition refused :: "fetch_exn + response" where
  "refused = Inl (Request_exception (u ''Connection refused''))"

text \<open>
  An environment whose codec registry has one entry, \<open>ascii\<close>: with \<open>errors="replace"\<close>
  it decodes a byte below 128 to its code point and any other byte to U+FFFD.
\<close>

definition ascii_replace :: "8 word list \<Rightarrow> str" where
  "ascii_replace bs = map (\<lambda>b. if unat b < 128 then unat b else 65533) bs"

definition ascii_env :: env where
  "ascii_env =
     \<lparr>db = latin1_db,
      http_get = (\<lambda>url. refused),
      codec_decode = (\<lambda>enc bs. if enc = u ''ascii'' then Inr (ascii_replace bs) else Inl Lookup_error),
      soup_text = (\<lambda>html. html),
      soup_hrefs = (\<lambda>html. [])\<rparr>"

section \<open>Facts about the regular expressions\<close>

declare rep_ends.simps [simp del]

lemma takeWhile_drop_step:
  assumes "i < length s" "P (s ! i)"
  shows "takeWhile P (drop i s) = s ! i # takeWhile P (drop (Suc i) s)"
  using assms by (simp add: Cons_nth_drop_Suc [OF assms(1), symmetric])

lemma takeWhile_drop_stop:
  assumes "\<not> (i < length s \<and> P (s ! i))"
  shows "takeWhile P (drop i s) = []"
proof (cases "i < length s")
  case True
  with assms show ?thesis by (simp add: Cons_nth_drop_Suc [OF True, symmetric])
next
  case False
  then show ?thesis by simp
qed

text \<open>A repeated character class takes the characters of the run, the longest match first.\<close>

lemma rep_ends_one_char:
  "rep_ends (one_char P s) n lo i =
     (let k = min n (length (takeWhile P (drop i s)))
      in if lo \<le> k then rev [i + lo ..< Suc (i + k)] else [])"
proof (induction n arbitrary: lo i)
  case 0
  show ?case by (simp add: rep_ends.simps)
next
  case (Suc n)
  show ?case
  proof (cases "i < length s \<and> P (s ! i)")
    case True
    then have tw: "takeWhile P (drop i s) = s ! i # takeWhile P (drop (Suc i) s)"
      by (simp add: takeWhile_drop_step)
    have oc: "one_char P s i = [Suc i]" using True by (simp add: one_char_def)
    show ?thesis
    proof (cases lo)
      case 0
      then show ?thesis
        using Suc.IH [of 0 "Suc i"]
        by (simp add: rep_ends.simps oc tw Let_def upt_rec [of i])
    next
      case (Suc l)
      then show ?thesis
        using Suc.IH [of l "Suc i"]
        by (simp add: rep_ends.simps oc tw Let_def)
    qed
  next
    case False
    then have tw: "takeWhile P (drop i s) = []" by (rule takeWhile_drop_stop)
    have oc: "one_char P s i = []" using False by (auto simp: one_char_def)
    show ?thesis by (simp add: rep_ends.simps oc tw)
  qed
qed

lemma plus_class_ends:
  "rep_ends (one_char P s) (Suc (length s)) (Suc 0) i =
     (if i < length s \<and> P (s ! i)
      then rev [Suc i ..< Suc (i + length (takeWhile P (drop i s)))] else [])"
proof -
  have le: "length (takeWhile P (drop i s)) \<le> Suc (length s)"
    by (rule le_trans [OF length_takeWhile_le]) simp
  show ?thesis
  proof (cases "i < length s \<and> P (s ! i)")
    case True
    then show ?thesis
      using le by (simp add: rep_ends_one_char Let_def min_absorb2 takeWhile_drop_step)
  next
    case False
    then have "takeWhile P (drop i s) = []" by (rule takeWhile_drop_stop)
    with False show ?thesis by (auto simp add: rep_ends_one_char Let_def)
  qed
qed

lemma plus_class_nonempty:
  "rep_ends (one_char P s) (Suc (length s)) (Suc 0) i \<noteq> [] \<longleftrightarrow> i < length s \<and> P (s ! i)"
  by (auto simp: plus_class_ends takeWhile_drop_step)

lemma plus_class_hd:
  "i < length s \<Longrightarrow> P (s ! i) \<Longrightarrow>
   hd (rep_ends (one_char P s) (Suc (length s)) (Suc 0) i) = i + length (takeWhile P (drop i s))"
  by (simp add: plus_class_ends takeWhile_drop_step hd_rev)

lemma find_first_index:
  "find (\<lambda>i. i < length s \<and> P (s ! i)) [pos ..< Suc (length s)] =
     (let m = length (takeWhile (Not \<circ> P) (drop pos s))
      in if pos + m < length s then Some (pos + m) else None)"
proof (induction "length s - pos" arbitrary: pos)
  case 0
  then have ge: "length s \<le> pos" by simp
  then show ?case by (cases "pos = length s") simp_all
next
  case (Suc n)
  then have lt: "pos < length s" by simp
  have up: "[pos ..< Suc (length s)] = pos # [Suc pos ..< Suc (length s)]"
    using lt by (simp del: upt_Suc add: upt_rec [of pos])
  show ?case
  proof (cases "P (s ! pos)")
    case True
    then show ?thesis using lt
      by (simp del: upt_Suc add: up Cons_nth_drop_Suc [OF lt, symmetric])
  next
    case False
    have "n = length s - Suc pos" using Suc.hyps(2) by simp
    from Suc.hyps(1) [OF this] False lt show ?thesis
      by (simp del: upt_Suc add: up Cons_nth_drop_Suc [OF lt, symmetric] Let_def)
  qed
qed

lemma collapse_unfold:
  "collapse P repl xs =
     takeWhile (Not \<circ> P) xs @
     (if dropWhile (Not \<circ> P) xs = [] then []
      else repl @ collapse P repl (dropWhile P (dropWhile (Not \<circ> P) xs)))"
  by (induction xs) auto

lemma first_match_plus:
  assumes "\<And>i. ends d (ignorecase p) s (expr p) i = rep_ends (one_char P s) (Suc (length s)) (Suc 0) i"
  shows "first_match d p s pos =
     (let m = length (takeWhile (Not \<circ> P) (drop pos s))
      in if pos + m < length s
         then Some (pos + m, pos + m + length (takeWhile P (drop (pos + m) s)))
         else None)"
proof -
  define m where "m = length (takeWhile (Not \<circ> P) (drop pos s))"
  have fnd: "find (\<lambda>i. ends d (ignorecase p) s (expr p) i \<noteq> []) [pos ..< Suc (length s)] =
      (if pos + m < length s then Some (pos + m) else None)"
    unfolding assms plus_class_nonempty find_first_index m_def by (simp add: Let_def)
  show ?thesis
  proof (cases "pos + m < length s")
    case True
    then have "m < length (drop pos s)" by simp
    then have "\<not> (Not \<circ> P) (drop pos s ! m)"
      unfolding m_def by (rule nth_length_takeWhile)
    then have "P (s ! (pos + m))" using True by simp
    then show ?thesis
      using True fnd
      by (simp del: upt_Suc add: first_match_def assms plus_class_hd Let_def m_def [symmetric])
  next
    case False
    then show ?thesis
      using fnd by (simp del: upt_Suc add: first_match_def Let_def m_def [symmetric])
  qed
qed

lemma sub_from_plus:
  assumes "\<And>i. ends d (ignorecase p) s (expr p) i = rep_ends (one_char P s) (Suc (length s)) (Suc 0) i"
  shows "sub_from d p repl s pos = collapse P repl (drop pos s)"
proof (induction "length s - pos" arbitrary: pos rule: less_induct)
  case less
  define xs where "xs = drop pos s"
  define m where "m = length (takeWhile (Not \<circ> P) xs)"
  have tk: "takeWhile (Not \<circ> P) xs = take m xs"
    unfolding m_def by (rule takeWhile_eq_take)
  have dr: "dropWhile (Not \<circ> P) xs = drop (pos + m) s"
    unfolding m_def xs_def by (simp add: dropWhile_eq_drop add.commute)
  show ?case
  proof (cases "pos + m < length s")
    case True
    define j where "j = pos + m + length (takeWhile P (drop (pos + m) s))"
    have fm: "first_match d p s pos = Some (pos + m, j)"
      using True by (simp add: first_match_plus [OF assms] Let_def m_def xs_def j_def)
    have "m < length xs" using True by (simp add: xs_def)
    then have "\<not> (Not \<circ> P) (xs ! m)"
      unfolding m_def by (rule nth_length_takeWhile)
    then have Pm: "P (s ! (pos + m))" using True by (simp add: xs_def)
    then have "takeWhile P (drop (pos + m) s) \<noteq> []"
      using True by (simp add: takeWhile_drop_step)
    then have lt: "pos + m < j" by (simp add: j_def)
    have "length s - j < length s - pos" using lt True by simp
    from less [OF this] have ih: "sub_from d p repl s j = collapse P repl (drop j s)" .
    have dj: "dropWhile P (drop (pos + m) s) = drop j s"
      by (simp add: dropWhile_eq_drop j_def add.commute)
    have ne: "drop (pos + m) s \<noteq> []" using True by simp
    have "sub_from d p repl s pos = take m xs @ repl @ collapse P repl (drop j s)"
      by (subst sub_from.simps) (simp add: fm lt ih xs_def)
    also have "\<dots> = collapse P repl xs"
      using True by (subst (2) collapse_unfold) (simp add: tk dr dj ne)
    finally show ?thesis by (simp add: xs_def)
  next
    case False
    have fm: "first_match d p s pos = None"
      using False by (simp add: first_match_plus [OF assms] Let_def m_def xs_def)
    have "length xs \<le> m" using False by (simp add: xs_def)
    then have all: "takeWhile (Not \<circ> P) xs = xs" by (simp add: tk)
    then have "dropWhile (Not \<circ> P) xs = []"
      by (metis append_self_conv takeWhile_dropWhile_id)
    then have "collapse P repl xs = xs"
      by (subst collapse_unfold) (simp add: all)
    moreover have "sub_from d p repl s pos = xs"
      by (subst sub_from.simps) (simp add: fm xs_def)
    ultimately show ?thesis by (simp add: xs_def)
  qed
qed

lemma compile_WS:
  "re_compile WS_SRC False = Inr \<lparr>expr = Rep 1 None (Category Cat_space), ignorecase = False\<rparr>"
  by code_simp

lemma compile_TOKEN:
  "re_compile TOKEN_SRC False =
     Inr \<lparr>expr = Rep 1 None (In True [Rng 97 122, Rng 48 57]), ignorecase = False\<rparr>"
  by code_simp

lemma compile_SPLIT: "re_compile SPLIT_SRC False = Inl Unterminated_character_set"
  by code_simp

lemma in_category_space: "in_category d Cat_space = is_space"
  by (rule ext) simp

lemma re_sub_WS: "re_sub d WS_SRC repl s = Inr (collapse is_space repl s)"
  using sub_from_plus [of d "\<lparr>expr = Rep 1 None (Category Cat_space), ignorecase = False\<rparr>" s is_space repl 0]
  by (simp add: re_sub_def compile_WS in_category_space)

lemma clean_eq: "clean d s = Inr (spec_clean s)"
  by (simp add: clean_def re_sub_WS spec_clean_def)

lemma clean_lines_eq:
  "clean_lines d xs = Inr (filter (\<lambda>l. l \<noteq> []) (map spec_clean xs))"
  by (induction xs) (simp_all add: clean_eq)

section \<open>Facts about the program\<close>

lemma compile_DATE: "re_compile DATE_SRC True = Inr DATE_PAT"
  by code_simp

lemma compile_WIKI: "re_compile WIKI_SRC True = Inr WIKI_PAT"
  by code_simp

lemma script_eq_main: "script ev generated fs = main ev DATE_PAT WIKI_PAT generated fs"
  by (simp add: script_def compile_DATE compile_WIKI)

lemma re_split1_head_raises: "re_split1_head d SPLIT_SRC ln = Inl Unterminated_character_set"
  by (simp add: re_split1_head_def compile_SPLIT)

lemma name_guess_always_raises: "name_guess d ln = Inl Unterminated_character_set"
  by (simp add: name_guess_def re_split1_head_raises)

lemma format_entry_always_raises:
  "format_entry d wiki_links ln = Inl Unterminated_character_set"
  by (simp add: format_entry_def name_guess_always_raises)


lemma page_lines_eq:
  "page_lines d page_text = Inr (filter (\<lambda>l. l \<noteq> []) (map spec_clean (split_on 10 page_text)))"
  by (simp add: page_lines_def clean_lines_eq)

lemma fetch_html_cases:
  "fetch_html ev url =
     (case http_get ev url of
        Inl e \<Rightarrow> Inl (Fetch_request e)
      | Inr r \<Rightarrow> Inr (case codec_decode ev (chosen_encoding r) (content r) of
                       Inr text \<Rightarrow> text
                     | Inl e \<Rightarrow> map unat (content r)))"
  by (simp add: fetch_html_def decode_body_def latin1_decode_def split: sum.splits)

lemma append_out_append_out [simp]:
  "append_out b (append_out a st) = append_out (a @ b) st"
  by (simp add: append_out_def)

lemma total_lines_append_out [simp]: "total_lines (append_out ls st) = total_lines st"
  by (simp add: append_out_def)

lemma out_append_out [simp]: "out (append_out ls st) = out st @ ls"
  by (simp add: append_out_def)

lemma process_source_failed:
  "fetch_html ev url = Inl e \<Longrightarrow>
   process_source ev date_pat wiki_pat url st =
     Inr (append_out (source_banner url @ [u ''[ERROR] Could not fetch page: '' @ exn_str e, []]) st)"
  by (simp add: process_source_def)

lemma process_source_empty:
  assumes "fetch_html ev url = Inr html"
    and "keep_lines (db ev) date_pat
           (filter (\<lambda>l. l \<noteq> []) (map spec_clean (split_on 10 (soup_text ev html)))) [] = []"
  shows "process_source ev date_pat wiki_pat url st =
     Inr (append_out (source_banner url @
            debug_block (filter (\<lambda>l. l \<noteq> []) (map spec_clean (split_on 10 (soup_text ev html))))) st)"
  using assms by (simp add: process_source_def page_lines_eq Let_def)


text \<open>The steps only append to the buffer: lines put in front of it stay in front.\<close>

lemma shift_append_out: "append_out ls (shift pre st) = shift pre (append_out ls st)"
  by (simp add: shift_def append_out_def)

lemma shift_total: "(shift pre st)\<lparr>total_lines := n\<rparr> = shift pre (st\<lparr>total_lines := n\<rparr>)"
  by (simp add: shift_def)

lemma total_lines_shift [simp]: "total_lines (shift pre st) = total_lines st"
  by (simp add: shift_def)

lemma write_entries_shift:
  "write_entries d wl kept (shift pre st) = map_sum id (shift pre) (write_entries d wl kept st)"
proof (induction kept arbitrary: st)
  case Nil
  show ?case by simp
next
  case (Cons ln lns)
  show ?case
  proof (cases "format_entry d wl ln")
    case (Inl e)
    then show ?thesis by simp
  next
    case (Inr e)
    then show ?thesis
      by (simp add: shift_append_out shift_total Cons.IH)
  qed
qed

lemma process_source_shift:
  "process_source ev dp wp url (shift pre st) = map_sum id (shift pre) (process_source ev dp wp url st)"
  by (simp add: process_source_def Let_def shift_append_out write_entries_shift
      split: sum.splits)

lemma process_all_shift:
  "process_all ev dp wp urls (shift pre st) = map_sum id (shift pre) (process_all ev dp wp urls st)"
proof (induction urls arbitrary: st)
  case Nil
  show ?case by simp
next
  case (Cons url urls)
  show ?case
    by (cases "process_source ev dp wp url st") (simp_all add: process_source_shift Cons.IH)
qed

text \<open>The example pages.\<close>

lemma example_no_dates_lines:
  "page_lines latin1_db (u ''no dates on this page'') = Inr [u ''no dates on this page'']"
  by (simp add: page_lines_eq spec_clean_def strip_def strip_by_def is_space_def u_def)

lemma example_no_dates_kept:
  "keep_lines latin1_db DATE_PAT [u ''no dates on this page''] [] = []"
  by code_simp



section \<open>Facts about normalized lines\<close>

lemma no_double_Cons:
  "no_double P (x # xs) = ((xs \<noteq> [] \<longrightarrow> \<not> (P x \<and> P (hd xs))) \<and> no_double P xs)"
  by (cases xs) simp_all

lemma no_double_append:
  "no_double P (xs @ ys) =
     (no_double P xs \<and> no_double P ys \<and> (xs \<noteq> [] \<and> ys \<noteq> [] \<longrightarrow> \<not> (P (last xs) \<and> P (hd ys))))"
proof (induction xs)
  case Nil
  show ?case by simp
next
  case (Cons x xs)
  show ?case
    by (cases xs) (use Cons in \<open>auto simp: no_double_Cons\<close>)
qed

lemma no_double_rev: "no_double P (rev xs) = no_double P xs"
  by (induction xs) (auto simp: no_double_append no_double_Cons last_rev hd_rev)

lemma no_double_dropWhile: "no_double P xs \<Longrightarrow> no_double P (dropWhile Q xs)"
  by (induction xs) (auto simp: no_double_Cons)

lemma no_double_strip_by: "no_double P xs \<Longrightarrow> no_double P (strip_by Q xs)"
  by (simp add: strip_by_def no_double_rev no_double_dropWhile)

lemma no_double_nth:
  "no_double P xs \<Longrightarrow> Suc i < length xs \<Longrightarrow> \<not> (P (xs ! i) \<and> P (xs ! Suc i))"
proof (induction xs arbitrary: i)
  case Nil
  then show ?case by simp
next
  case (Cons x xs)
  show ?case
  proof (cases i)
    case 0
    with Cons.prems show ?thesis by (cases xs) (auto simp: no_double_Cons)
  next
    case (Suc j)
    with Cons show ?thesis by (auto simp: no_double_Cons)
  qed
qed

lemma hd_collapse_not:
  "xs \<noteq> [] \<Longrightarrow> \<not> P (hd xs) \<Longrightarrow> collapse P repl xs \<noteq> [] \<and> hd (collapse P repl xs) = hd xs"
  by (cases xs) simp_all

lemma no_double_collapse: "no_double P (collapse P [sp] xs)"
proof (induction P "[sp]" xs rule: collapse.induct)
  case (1 P)
  show ?case by simp
next
  case (2 P c cs)
  show ?case
  proof (cases "P c")
    case True
    let ?r = "dropWhile P cs"
    have nd: "no_double P (collapse P [sp] ?r)" using 2(1) [OF True] .
    show ?thesis
    proof (cases "?r = []")
      case True
      with \<open>P c\<close> show ?thesis by (simp del: dropWhile_eq_Nil_conv)
    next
      case False
      then have "\<not> P (hd ?r)" by (rule hd_dropWhile)
      with False have "collapse P [sp] ?r \<noteq> [] \<and> hd (collapse P [sp] ?r) = hd ?r"
        by (rule hd_collapse_not)
      with nd \<open>\<not> P (hd ?r)\<close> \<open>P c\<close> show ?thesis
        by (simp add: no_double_Cons)
    qed
  next
    case False
    with 2(2) show ?thesis by (simp add: no_double_Cons)
  qed
qed

lemma last_dropWhile: "dropWhile P xs \<noteq> [] \<Longrightarrow> last (dropWhile P xs) = last xs"
  by (induction xs) (auto split: if_splits)

lemma strip_by_ends:
  assumes "strip_by P xs \<noteq> []"
  shows "\<not> P (hd (strip_by P xs)) \<and> \<not> P (last (strip_by P xs))"
proof -
  let ?ys = "dropWhile P xs"
  let ?zs = "dropWhile P (rev ?ys)"
  have zs: "?zs \<noteq> []" using assms by (simp add: strip_by_def)
  have ys: "?ys \<noteq> []"
  proof
    assume "?ys = []"
    then have "?zs = []" by (simp del: dropWhile_eq_Nil_conv)
    with zs show False ..
  qed
  have "\<not> P (hd ?zs)" using zs by (rule hd_dropWhile)
  moreover have "last ?zs = hd ?ys"
    using last_dropWhile [OF zs] ys by (simp add: last_rev)
  moreover have "\<not> P (hd ?ys)" using ys by (rule hd_dropWhile)
  ultimately show ?thesis
    using zs by (simp add: strip_by_def hd_rev last_rev)
qed

lemma spec_clean_normalized:
  assumes "spec_clean s \<noteq> []"
  shows "\<not> is_space (hd (spec_clean s)) \<and> \<not> is_space (last (spec_clean s))
         \<and> (\<forall>i. Suc i < length (spec_clean s) \<longrightarrow>
               \<not> (is_space (spec_clean s ! i) \<and> is_space (spec_clean s ! Suc i)))"
proof -
  have "no_double is_space (spec_clean s)"
    by (simp add: spec_clean_def strip_def u_def no_double_strip_by no_double_collapse)
  then show ?thesis
    using assms strip_by_ends [of is_space "collapse is_space (u '' '') s"]
    by (auto simp: spec_clean_def strip_def dest: no_double_nth)
qed

section \<open>Facts about the link of an entry\<close>

lemma re_sub_TOKEN: "re_sub d TOKEN_SRC repl s = Inr (collapse (\<lambda>c. \<not> lower_alnum c) repl s)"
  using sub_from_plus [of d "\<lparr>expr = Rep 1 None (In True [Rng 97 122, Rng 48 57]), ignorecase = False\<rparr>"
      s "\<lambda>c. \<not> lower_alnum c" repl 0]
  by (simp add: re_sub_def compile_TOKEN lower_alnum_def)

lemma name_token_eq: "name_token d name = Inr (spec_token d name)"
  by (simp add: name_token_def re_sub_TOKEN spec_token_def strip_chars_def u_def)

lemma first_link_find:
  "first_link d token links =
     (if token = [] then []
      else case find (\<lambda>w. sublist token (str_lower d w)) links of None \<Rightarrow> [] | Some w \<Rightarrow> w)"
  by (induction links) (auto split: option.splits)

lemma example_token: "spec_token latin1_db (u ''Jane Q. Public'') = u ''jane_q_public''"
  by (simp add: spec_token_def str_lower_def ascii_lower_def lower_alnum_def strip_by_def u_def)

lemma example_link_with_dot:
  "\<not> sublist (u ''jane_q_public'') (str_lower latin1_db (u ''https://en.wikipedia.org/wiki/Jane_Q._Public''))"
  by (simp add: str_lower_def ascii_lower_def u_def sublist_code)

lemma example_link_plain:
  "sublist (u ''jane_q_public'') (str_lower latin1_db (u ''https://en.wikipedia.org/wiki/Jane_Q_Public''))"
  by (simp add: str_lower_def ascii_lower_def u_def sublist_code)

section \<open>Facts about the date pattern\<close>

lemma recogI:
  "(\<And>i j. i \<le> length s \<Longrightarrow>
      j \<in> set (ends d ic s r i) \<longleftrightarrow> i \<le> j \<and> j \<le> length s \<and> A (substr s i j))
   \<Longrightarrow> recog d ic s r A"
  by (simp add: recog_def)

lemma recogD:
  "recog d ic s r A \<Longrightarrow> i \<le> length s \<Longrightarrow>
   j \<in> set (ends d ic s r i) \<longleftrightarrow> i \<le> j \<and> j \<le> length s \<and> A (substr s i j)"
  by (simp add: recog_def)

lemma recog_cong: "recog d ic s r A \<Longrightarrow> (\<And>w. A w = B w) \<Longrightarrow> recog d ic s r B"
  by (simp add: recog_def)

lemma length_substr: "i \<le> j \<Longrightarrow> j \<le> length s \<Longrightarrow> length (substr s i j) = j - i"
  by (simp add: substr_def)

lemma substr_same [simp]: "substr s i i = []"
  by (simp add: substr_def)

lemma substr_append:
  assumes "i \<le> k" "k \<le> j" "j \<le> length s"
  shows "substr s i j = substr s i k @ substr s k j"
proof -
  have "j - i = (k - i) + (j - k)" using assms by simp
  then have "take (j - i) (drop i s) = take (k - i) (drop i s) @ take (j - k) (drop (k - i) (drop i s))"
    by (simp only: take_add)
  then show ?thesis using assms by (simp add: substr_def)
qed

lemma substr_Suc:
  assumes "i < length s"
  shows "substr s i (Suc i) = [s ! i]"
proof -
  have "drop i s = s ! i # drop (Suc i) s" using assms by (simp add: Cons_nth_drop_Suc)
  then show ?thesis by (simp add: substr_def)
qed

lemma substr_split:
  assumes "i \<le> j" "j \<le> length s" "substr s i j = w1 @ w2"
  shows "i + length w1 \<le> j \<and> substr s i (i + length w1) = w1 \<and> substr s (i + length w1) j = w2"
proof -
  have t: "take (j - i) (drop i s) = w1 @ w2" using assms(3) by (simp add: substr_def)
  have len: "length w1 + length w2 = j - i"
    using length_substr [OF assms(1,2)] assms(3) by simp
  then have k: "i + length w1 \<le> j" using assms(1) by simp
  have "take (length w1) (take (j - i) (drop i s)) = w1" by (simp only: t) simp
  then have a: "take (length w1) (drop i s) = w1" using len by (simp add: min_absorb1)
  have "drop (length w1) (take (j - i) (drop i s)) = w2" by (simp only: t) simp
  then have b: "take (j - (i + length w1)) (drop (i + length w1) s) = w2"
    by (simp add: drop_take add.commute)
  from k a b show ?thesis by (simp add: substr_def)
qed

lemma recog_one_char:
  assumes "ends d ic s r = one_char P s"
  shows "recog d ic s r (\<lambda>w. \<exists>c. w = [c] \<and> P c)"
proof (rule recogI)
  fix i j assume "i \<le> length s"
  show "j \<in> set (ends d ic s r i) \<longleftrightarrow> i \<le> j \<and> j \<le> length s \<and> (\<exists>c. substr s i j = [c] \<and> P c)"
  proof
    assume "j \<in> set (ends d ic s r i)"
    then have "i < length s" "P (s ! i)" "j = Suc i"
      by (auto simp: assms one_char_def split: if_splits)
    then show "i \<le> j \<and> j \<le> length s \<and> (\<exists>c. substr s i j = [c] \<and> P c)"
      by (simp add: substr_Suc)
  next
    assume a: "i \<le> j \<and> j \<le> length s \<and> (\<exists>c. substr s i j = [c] \<and> P c)"
    then obtain c where c: "substr s i j = [c]" "P c" by blast
    from a c have "j - i = 1" using length_substr [of i j s] by simp
    with a have j: "j = Suc i" "i < length s" by arith+
    with c have "P (s ! i)" by (simp add: substr_Suc)
    with j show "j \<in> set (ends d ic s r i)" by (simp add: assms one_char_def)
  qed
qed

lemma recog_Lit: "recog d ic s (Lit p) (\<lambda>w. \<exists>c. w = [c] \<and> lit_match d ic p c)"
  by (rule recog_one_char) simp

lemma recog_Seq_fwd:
  assumes "recog d ic s a A" "recog d ic s b B" and i: "i \<le> length s"
    and "j \<in> set (ends d ic s (Seq a b) i)"
  shows "i \<le> j \<and> j \<le> length s \<and> (\<exists>w1 w2. substr s i j = w1 @ w2 \<and> A w1 \<and> B w2)"
proof -
  from assms(4) obtain k where k: "k \<in> set (ends d ic s a i)" "j \<in> set (ends d ic s b k)"
    by auto
  from k(1) have ka: "i \<le> k \<and> k \<le> length s \<and> A (substr s i k)"
    using recogD [OF assms(1) i, of k] by simp
  then have kl: "k \<le> length s" by simp
  from k(2) have kb: "k \<le> j \<and> j \<le> length s \<and> B (substr s k j)"
    using recogD [OF assms(2) kl, of j] by simp
  have "substr s i j = substr s i k @ substr s k j"
    using ka kb by (simp add: substr_append)
  with ka kb have "\<exists>w1 w2. substr s i j = w1 @ w2 \<and> A w1 \<and> B w2"
    by blast
  moreover have "i \<le> j" using ka kb by linarith
  ultimately show ?thesis
    using kb by blast
qed

lemma recog_Seq_bwd:
  assumes "recog d ic s a A" "recog d ic s b B" and i: "i \<le> length s"
    and a: "i \<le> j \<and> j \<le> length s \<and> (\<exists>w1 w2. substr s i j = w1 @ w2 \<and> A w1 \<and> B w2)"
  shows "j \<in> set (ends d ic s (Seq a b) i)"
proof -
  from a obtain w1 w2 where w: "substr s i j = w1 @ w2" "A w1" "B w2" by blast
  let ?k = "i + length w1"
  from a w(1) have sp: "?k \<le> j \<and> substr s i ?k = w1 \<and> substr s ?k j = w2"
    using substr_split [of i j s w1 w2] by blast
  have k: "?k \<le> length s" using sp a by linarith
  have Ak: "A (substr s i ?k)" using w(2) sp by (simp only:)
  have Bk: "B (substr s ?k j)" using w(3) sp by (simp only:)
  have "?k \<in> set (ends d ic s a i)"
    using recogD [OF assms(1) i, of ?k] k Ak by simp
  moreover have "j \<in> set (ends d ic s b ?k)"
    using recogD [OF assms(2) k, of j] a sp Bk by simp
  ultimately show "j \<in> set (ends d ic s (Seq a b) i)" by auto
qed

lemma recog_Seq:
  assumes "recog d ic s a A" "recog d ic s b B"
  shows "recog d ic s (Seq a b) (\<lambda>w. \<exists>w1 w2. w = w1 @ w2 \<and> A w1 \<and> B w2)"
proof (rule recogI)
  fix i j assume i: "i \<le> length s"
  show "j \<in> set (ends d ic s (Seq a b) i) \<longleftrightarrow>
        i \<le> j \<and> j \<le> length s \<and> (\<exists>w1 w2. substr s i j = w1 @ w2 \<and> A w1 \<and> B w2)"
    using recog_Seq_fwd [OF assms i, of j] recog_Seq_bwd [OF assms i, of j] by blast
qed

lemma recog_Alt:
  assumes "recog d ic s a A" "recog d ic s b B"
  shows "recog d ic s (Alt a b) (\<lambda>w. A w \<or> B w)"
  using assms by (auto simp: recog_def)

lemma recog_Grp: "recog d ic s r A \<Longrightarrow> recog d ic s (Grp r) A"
  by (simp add: recog_def)

lemma recog_opt:
  assumes "recog d ic s r A"
  shows "recog d ic s (opt r) (\<lambda>w. w = [] \<or> A w)"
proof (rule recogI)
  fix i j assume i: "i \<le> length s"
  have "rep_ends (ends d ic s r) 0 0 = (\<lambda>i. [i])"
    by (rule ext) (simp add: rep_ends.simps)
  then have e: "ends d ic s (opt r) i = filter (\<lambda>j. j \<noteq> i) (ends d ic s r i) @ [i]"
    by (simp add: opt_def rep_ends.simps)
  have z: "i \<le> j \<Longrightarrow> j \<le> length s \<Longrightarrow> substr s i j = [] \<longleftrightarrow> j = i"
    using length_substr [of i j s] by auto
  show "j \<in> set (ends d ic s (opt r) i) \<longleftrightarrow> i \<le> j \<and> j \<le> length s \<and> (substr s i j = [] \<or> A (substr s i j))"
    using recogD [OF assms i, of j] i z by (auto simp: e)
qed

lemma recog_Eps: "recog d ic s Eps (\<lambda>w. w = [])"
proof (rule recogI)
  fix i j assume i: "i \<le> length s"
  have "i \<le> j \<Longrightarrow> j \<le> length s \<Longrightarrow> substr s i j = [] \<longleftrightarrow> j = i"
    using length_substr [of i j s] by auto
  then show "j \<in> set (ends d ic s Eps i) \<longleftrightarrow> i \<le> j \<and> j \<le> length s \<and> substr s i j = []"
    using i by auto
qed

lemma takeWhile_length_ge:
  "n \<le> length (takeWhile P xs) \<longleftrightarrow> n \<le> length xs \<and> list_all P (take n xs)"
proof (induction xs arbitrary: n)
  case Nil
  show ?case by simp
next
  case (Cons x xs)
  show ?case by (cases n) (simp_all add: Cons)
qed

lemma set_rep_ends_one_char:
  "j \<in> set (rep_ends (one_char P s) n lo i) \<longleftrightarrow>
     i + lo \<le> j \<and> j \<le> i + min n (length (takeWhile P (drop i s)))"
  by (auto simp: rep_ends_one_char Let_def)

lemma run_substr:
  assumes "i \<le> j" "i \<le> length s"
  shows "j - i \<le> length (takeWhile P (drop i s)) \<longleftrightarrow> j \<le> length s \<and> list_all P (substr s i j)"
  using assms by (auto simp: takeWhile_length_ge substr_def)

lemma recog_rep_class:
  assumes "ends d ic s r = one_char P s"
  shows "recog d ic s (Rep lo (Some hi) r) (\<lambda>w. lo \<le> length w \<and> length w \<le> hi \<and> list_all P w)"
proof (rule recogI)
  fix i j assume i: "i \<le> length s"
  let ?k = "length (takeWhile P (drop i s))"
  have "j \<in> set (ends d ic s (Rep lo (Some hi) r) i) \<longleftrightarrow> i + lo \<le> j \<and> j \<le> i + min hi ?k"
    by (simp add: assms set_rep_ends_one_char)
  also have "\<dots> \<longleftrightarrow> i \<le> j \<and> lo \<le> j - i \<and> j - i \<le> hi \<and> j - i \<le> ?k"
    by auto
  also have "\<dots> \<longleftrightarrow> i \<le> j \<and> lo \<le> j - i \<and> j - i \<le> hi \<and> j \<le> length s \<and> list_all P (substr s i j)"
    using run_substr [of i j s P] i by blast
  also have "\<dots> \<longleftrightarrow> i \<le> j \<and> j \<le> length s \<and>
      (lo \<le> length (substr s i j) \<and> length (substr s i j) \<le> hi \<and> list_all P (substr s i j))"
    using length_substr [of i j s] by auto
  finally show "j \<in> set (ends d ic s (Rep lo (Some hi) r) i) \<longleftrightarrow> i \<le> j \<and> j \<le> length s \<and>
      (lo \<le> length (substr s i j) \<and> length (substr s i j) \<le> hi \<and> list_all P (substr s i j))" .
qed

lemma recog_plus_class:
  assumes "ends d ic s r = one_char P s"
  shows "recog d ic s (Rep lo None r) (\<lambda>w. lo \<le> length w \<and> list_all P w)"
proof (rule recogI)
  fix i j assume i: "i \<le> length s"
  let ?k = "length (takeWhile P (drop i s))"
  have "?k \<le> length s"
    by (rule le_trans [OF length_takeWhile_le]) simp
  then have m: "min (lo + length s) ?k = ?k" by simp
  have "j \<in> set (ends d ic s (Rep lo None r) i) \<longleftrightarrow> i + lo \<le> j \<and> j \<le> i + ?k"
    by (simp add: assms set_rep_ends_one_char m)
  also have "\<dots> \<longleftrightarrow> i \<le> j \<and> lo \<le> j - i \<and> j - i \<le> ?k"
    by auto
  also have "\<dots> \<longleftrightarrow> i \<le> j \<and> lo \<le> j - i \<and> j \<le> length s \<and> list_all P (substr s i j)"
    using run_substr [of i j s P] i by blast
  also have "\<dots> \<longleftrightarrow> i \<le> j \<and> j \<le> length s \<and>
      (lo \<le> length (substr s i j) \<and> list_all P (substr s i j))"
    using length_substr [of i j s] by auto
  finally show "j \<in> set (ends d ic s (Rep lo None r) i) \<longleftrightarrow> i \<le> j \<and> j \<le> length s \<and>
      (lo \<le> length (substr s i j) \<and> list_all P (substr s i j))" .
qed

lemma recog_spaces: "recog d ic s spaces_rx is_spaces"
  using recog_plus_class [of d ic s "Category Cat_space" is_space 1]
  by (simp add: spaces_rx_def is_spaces_def [abs_def] in_category_space)

lemma in_category_digit: "in_category d Cat_digit = is_decimal d"
  by (rule ext) simp

lemma recog_digits: "recog d ic s (digits_rx lo hi) (is_digits d lo hi)"
  using recog_rep_class [of d ic s "Category Cat_digit" "is_decimal d" lo hi]
  by (simp add: digits_rx_def is_digits_def [abs_def] in_category_digit)

lemma seq_of_Cons: "rs \<noteq> [] \<Longrightarrow> seq_of (r # rs) = Seq r (seq_of rs)"
  by (cases rs) simp_all

lemma recog_lits_then:
  assumes "recog d ic s r B"
  shows "recog d ic s (seq_of (map Lit m @ [r]))
           (\<lambda>w. \<exists>w1 w2. w = w1 @ w2 \<and> list_all2 (lit_match d ic) m w1 \<and> B w2)"
proof (induction m)
  case Nil
  have "recog d ic s r (\<lambda>w. \<exists>w1 w2. w = w1 @ w2 \<and> list_all2 (lit_match d ic) [] w1 \<and> B w2)"
    by (rule recog_cong [OF assms]) simp
  then show ?case by simp
next
  case (Cons p m)
  have "recog d ic s (Seq (Lit p) (seq_of (map Lit m @ [r])))
      (\<lambda>w. \<exists>w1 w2. w = w1 @ w2 \<and> (\<exists>c. w1 = [c] \<and> lit_match d ic p c) \<and>
         (\<exists>v1 v2. w2 = v1 @ v2 \<and> list_all2 (lit_match d ic) m v1 \<and> B v2))"
    by (rule recog_Seq [OF recog_Lit Cons])
  then have "recog d ic s (Seq (Lit p) (seq_of (map Lit m @ [r])))
      (\<lambda>w. \<exists>w1 w2. w = w1 @ w2 \<and> list_all2 (lit_match d ic) (p # m) w1 \<and> B w2)"
  proof (rule recog_cong)
    fix w
    show "(\<exists>w1 w2. w = w1 @ w2 \<and> (\<exists>c. w1 = [c] \<and> lit_match d ic p c) \<and>
            (\<exists>v1 v2. w2 = v1 @ v2 \<and> list_all2 (lit_match d ic) m v1 \<and> B v2)) =
          (\<exists>w1 w2. w = w1 @ w2 \<and> list_all2 (lit_match d ic) (p # m) w1 \<and> B w2)"
    proof
      assume "\<exists>w1 w2. w = w1 @ w2 \<and> (\<exists>c. w1 = [c] \<and> lit_match d ic p c) \<and>
            (\<exists>v1 v2. w2 = v1 @ v2 \<and> list_all2 (lit_match d ic) m v1 \<and> B v2)"
      then obtain c v1 v2 where "w = [c] @ v1 @ v2" "lit_match d ic p c"
        "list_all2 (lit_match d ic) m v1" "B v2" by blast
      then have "w = (c # v1) @ v2 \<and> list_all2 (lit_match d ic) (p # m) (c # v1) \<and> B v2"
        by simp
      then show "\<exists>w1 w2. w = w1 @ w2 \<and> list_all2 (lit_match d ic) (p # m) w1 \<and> B w2"
        by blast
    next
      assume "\<exists>w1 w2. w = w1 @ w2 \<and> list_all2 (lit_match d ic) (p # m) w1 \<and> B w2"
      then obtain w1 w2 where w: "w = w1 @ w2" "list_all2 (lit_match d ic) (p # m) w1" "B w2"
        by blast
      from w(2) obtain c v1 where c: "w1 = c # v1" "lit_match d ic p c" "list_all2 (lit_match d ic) m v1"
        by (auto simp: list_all2_Cons1)
      have "w = [c] @ (v1 @ w2) \<and> (\<exists>c'. [c] = [c'] \<and> lit_match d ic p c') \<and>
          (\<exists>u1 u2. v1 @ w2 = u1 @ u2 \<and> list_all2 (lit_match d ic) m u1 \<and> B u2)"
        using w c by auto
      then show "\<exists>w1 w2. w = w1 @ w2 \<and> (\<exists>c. w1 = [c] \<and> lit_match d ic p c) \<and>
            (\<exists>v1 v2. w2 = v1 @ v2 \<and> list_all2 (lit_match d ic) m v1 \<and> B v2)"
        by blast
    qed
  qed
  then show ?case by (simp add: seq_of_Cons)
qed

lemma split_nil:
  "(\<exists>w1 w2. w = w1 @ w2 \<and> L w1 \<and> w2 = []) \<longleftrightarrow> L w"
  by simp

lemma split_disj:
  "(\<exists>w1 w2. w = w1 @ w2 \<and> L w1 \<and> (C1 w2 \<or> C2 w2)) \<longleftrightarrow>
   (\<exists>w1 w2. w = w1 @ w2 \<and> L w1 \<and> C1 w2) \<or> (\<exists>w1 w2. w = w1 @ w2 \<and> L w1 \<and> C2 w2)"
  by blast

lemma split_spell:
  "(\<exists>w1 w2. w = w1 @ w2 \<and> list_all2 R m w1 \<and> list_all2 R n w2) \<longleftrightarrow> list_all2 R (m @ n) w"
proof
  assume "\<exists>w1 w2. w = w1 @ w2 \<and> list_all2 R m w1 \<and> list_all2 R n w2"
  then show "list_all2 R (m @ n) w" by (auto intro: list_all2_appendI)
next
  assume "list_all2 R (m @ n) w"
  then show "\<exists>w1 w2. w = w1 @ w2 \<and> list_all2 R m w1 \<and> list_all2 R n w2"
    by (auto simp: list_all2_append1)
qed

lemma list_all2_single: "list_all2 R [x] w \<longleftrightarrow> (\<exists>c. w = [c] \<and> R x c)"
  by (auto simp: list_all2_Cons1)

lemma recog_lits: "recog d ic s (seq_of (map Lit m)) (list_all2 (lit_match d ic) m)"
proof (cases m rule: rev_cases)
  case Nil
  have "recog d ic s Eps (list_all2 (lit_match d ic) [])"
    by (rule recog_cong [OF recog_Eps]) auto
  with Nil show ?thesis by simp
next
  case (snoc xs x)
  have "recog d ic s (seq_of (map Lit xs @ [Lit x])) (list_all2 (lit_match d ic) (xs @ [x]))"
    by (rule recog_cong [OF recog_lits_then [OF recog_Lit]])
      (simp only: list_all2_single [symmetric] split_spell)
  with snoc show ?thesis by simp
qed

lemma recog_word_opt:
  assumes "recog d True s r B"
  shows "recog d True s (seq_of (map Lit m @ [opt r]))
           (\<lambda>w. spells d m w \<or> (\<exists>w1 w2. w = w1 @ w2 \<and> spells d m w1 \<and> B w2))"
  by (rule recog_cong [OF recog_lits_then [OF recog_opt [OF assms]]])
    (auto simp: spells_def)

lemma recog_month_rx:
  "recog d True s (month_rx short rest)
     (\<lambda>w. spells d (u short) w \<or> spells d (u short @ u rest) w)"
  unfolding month_rx_def lits_def
  by (rule recog_cong [OF recog_word_opt [OF recog_lits]])
    (simp add: spells_def split_spell)

lemma recog_sept:
  "recog d True s (seq_of (map Lit (u ''Sep'') @ [opt (seq_of [Lit 116, opt (lits ''ember'')])]))
     (\<lambda>w. spells d (u ''Sep'') w \<or> spells d (u ''Sept'') w \<or> spells d (u ''September'') w)"
proof -
  have inner: "recog d True s (seq_of (map Lit [116] @ [opt (seq_of (map Lit (u ''ember'')))]))
      (\<lambda>w. spells d [116] w \<or> spells d ([116] @ u ''ember'') w)"
    by (rule recog_cong [OF recog_word_opt [OF recog_lits]])
      (simp add: spells_def split_spell)
  have "recog d True s (seq_of (map Lit (u ''Sep'') @ [opt (seq_of (map Lit [116] @ [opt (seq_of (map Lit (u ''ember'')))]))]))
      (\<lambda>w. spells d (u ''Sep'') w \<or> spells d (u ''Sep'' @ [116]) w \<or> spells d (u ''Sep'' @ [116] @ u ''ember'') w)"
    by (rule recog_cong [OF recog_word_opt [OF inner]])
      (simp add: spells_def split_spell split_disj)
  then show ?thesis by (simp add: lits_def u_def)
qed

lemma recog_may: "recog d True s (lits ''May'') (spells d (u ''May''))"
  unfolding lits_def spells_def by (rule recog_lits)

lemma recog_MONTH: "recog d True s MONTH_RX (is_month d)"
proof -
  have "recog d True s MONTH_RX
     (\<lambda>w. (spells d (u ''Jan'') w \<or> spells d (u ''Jan'' @ u ''uary'') w) \<or>
          (spells d (u ''Feb'') w \<or> spells d (u ''Feb'' @ u ''ruary'') w) \<or>
          (spells d (u ''Mar'') w \<or> spells d (u ''Mar'' @ u ''ch'') w) \<or>
          (spells d (u ''Apr'') w \<or> spells d (u ''Apr'' @ u ''il'') w) \<or>
          spells d (u ''May'') w \<or>
          (spells d (u ''Jun'') w \<or> spells d (u ''Jun'' @ u ''e'') w) \<or>
          (spells d (u ''Jul'') w \<or> spells d (u ''Jul'' @ u ''y'') w) \<or>
          (spells d (u ''Aug'') w \<or> spells d (u ''Aug'' @ u ''ust'') w) \<or>
          (spells d (u ''Sep'') w \<or> spells d (u ''Sept'') w \<or> spells d (u ''September'') w) \<or>
          (spells d (u ''Oct'') w \<or> spells d (u ''Oct'' @ u ''ober'') w) \<or>
          (spells d (u ''Nov'') w \<or> spells d (u ''Nov'' @ u ''ember'') w) \<or>
          (spells d (u ''Dec'') w \<or> spells d (u ''Dec'' @ u ''ember'') w))"
    unfolding MONTH_RX_def alt_of.simps
    by (intro recog_Grp recog_Alt recog_month_rx recog_sept recog_may)
  then show ?thesis
    by (rule recog_cong) (auto simp: is_month_def month_names_def u_def)
qed

lemma recog_followed:
  assumes "recog d ic s a A" "recog d ic s b B"
  shows "recog d ic s (Seq a b) (followed_by A B)"
  by (rule recog_cong [OF recog_Seq [OF assms]]) (simp add: followed_by_def)

lemma lit_match_exact:
  "p < 128 \<Longrightarrow> \<not> ascii_letter p \<Longrightarrow> lit_match d True p c \<longleftrightarrow> c = p"
  by (simp add: lit_match_def)

lemma recog_Lit_exact:
  assumes "p < 128" "\<not> ascii_letter p"
  shows "recog d True s (Lit p) (\<lambda>w. w = [p])"
  by (rule recog_cong [OF recog_Lit]) (auto simp: lit_match_exact [OF assms])

lemma recog_comma: "recog d True s (Lit 44) (\<lambda>w. w = u '','')"
  using recog_Lit_exact [of 44 d s] by (simp add: ascii_letter_def u_def)

lemma recog_slash: "recog d True s (Lit 47) (\<lambda>w. w = u ''/'')"
  using recog_Lit_exact [of 47 d s] by (simp add: ascii_letter_def u_def)

lemma recog_digit_lit:
  "48 \<le> p \<Longrightarrow> p \<le> 57 \<Longrightarrow> recog d True s (Lit p) (\<lambda>w. w = [p])"
  by (rule recog_Lit_exact) (simp_all add: ascii_letter_def)

lemma recog_TEXT_DATE: "recog d True s TEXT_DATE_RX (textual_date d)"
  unfolding TEXT_DATE_RX_def seq_of.simps textual_date_def
  by (rule recog_Grp recog_followed recog_MONTH recog_spaces recog_digits recog_comma)+

lemma recog_NUM_DATE: "recog d True s NUM_DATE_RX (numeric_date d)"
  unfolding NUM_DATE_RX_def seq_of.simps numeric_date_def
  by (rule recog_Grp recog_followed recog_digits recog_slash)+

lemma followed_two:
  "followed_by (\<lambda>w. w = [a]) (followed_by (\<lambda>w. w = [b]) D) = followed_by (\<lambda>w. w = [a, b]) D"
  by (rule ext) (auto simp: followed_by_def)

lemma followed_either:
  "(followed_by (\<lambda>w. w = x) D w \<or> followed_by (\<lambda>w. w = y) D w)
   = followed_by (\<lambda>w. w = x \<or> w = y) D w"
  by (auto simp: followed_by_def)

lemma recog_YEAR: "recog d True s YEAR_RX (year_1900_2099 d)"
proof -
  have "recog d True s YEAR_RX
      (\<lambda>w. followed_by (\<lambda>w. w = [49]) (followed_by (\<lambda>w. w = [57]) (is_digits d 2 2)) w
          \<or> followed_by (\<lambda>w. w = [50]) (followed_by (\<lambda>w. w = [48]) (is_digits d 2 2)) w)"
    unfolding YEAR_RX_def seq_of.simps alt_of.simps
    by (intro recog_Grp recog_Alt recog_followed recog_digits recog_digit_lit) simp_all
  then show ?thesis
    by (rule recog_cong) (simp add: followed_two followed_either year_1900_2099_def u_def)
qed

lemma re_search_iff:
  "re_search d p s \<longleftrightarrow> (\<exists>i j. i \<le> length s \<and> j \<in> set (ends d (ignorecase p) s (expr p) i))"
proof -
  have "re_search d p s \<longleftrightarrow>
      find (\<lambda>i. ends d (ignorecase p) s (expr p) i \<noteq> []) [0 ..< Suc (length s)] \<noteq> None"
    by (simp del: upt_Suc add: re_search_def first_match_def split: option.splits)
  also have "\<dots> \<longleftrightarrow> (\<exists>i \<in> set [0 ..< Suc (length s)]. ends d (ignorecase p) s (expr p) i \<noteq> [])"
    by (auto simp del: upt_Suc simp: find_None_iff)
  also have "\<dots> \<longleftrightarrow> (\<exists>i. i \<le> length s \<and> (\<exists>j. j \<in> set (ends d (ignorecase p) s (expr p) i)))"
    by (auto simp del: upt_Suc simp: less_Suc_eq_le ex_in_conv)
  finally show ?thesis by blast
qed

lemma ends_DATE:
  assumes i: "i \<le> length s"
  shows "j \<in> set (ends d True s DATE_RX i) \<longleftrightarrow>
     i \<le> j \<and> j \<le> length s \<and>
     (textual_date d (substr s i j) \<or> numeric_date d (substr s i j)
      \<or> (year_1900_2099 d (substr s i j) \<and> at_boundary d s i \<and> at_boundary d s j))"
proof -
  have y: "j \<in> set (ends d True s (Seq Boundary (Seq YEAR_RX Boundary)) i) \<longleftrightarrow>
      at_boundary d s i \<and> j \<in> set (ends d True s YEAR_RX i) \<and> at_boundary d s j"
    by auto
  show ?thesis
    using recogD [OF recog_TEXT_DATE i, of j d] recogD [OF recog_NUM_DATE i, of j d]
      recogD [OF recog_YEAR i, of j d] y
    by (simp add: DATE_RX_def) blast
qed

lemma is_decimal_word: "is_decimal d c \<Longrightarrow> is_word d c"
  by (auto simp: is_decimal_def is_word_def split: if_splits)

lemma year_shape:
  assumes "year_1900_2099 d w"
  shows "length w = 4 \<and> is_word d (hd w) \<and> is_word d (last w)"
proof -
  from assms obtain c y where w: "w = c @ y" "c = u ''19'' \<or> c = u ''20''" "is_digits d 2 2 y"
    by (auto simp: year_1900_2099_def followed_by_def)
  from w(3) have ly: "length y = 2" "list_all (is_decimal d) y"
    by (auto simp: is_digits_def)
  then have "y \<noteq> []" by auto
  with ly(2) have "is_decimal d (last y)" by (simp add: list_all_iff)
  then have "is_word d (last y)" by (rule is_decimal_word)
  moreover have "is_word d (hd c)" using w(2) by (auto simp: u_def is_word_def ascii_digit_def)
  moreover have "length c = 2" "c \<noteq> []" using w(2) by (auto simp: u_def)
  ultimately show ?thesis using w(1) ly(1) \<open>y \<noteq> []\<close> by simp
qed

lemma boundary_standalone:
  assumes "i \<le> j" "j \<le> length s" "year_1900_2099 d (substr s i j)"
  shows "at_boundary d s i \<and> at_boundary d s j \<longleftrightarrow> standalone d (take i s) (drop j s)"
proof -
  let ?w = "substr s i j"
  from year_shape [OF assms(3)] have sh: "length ?w = 4" "is_word d (hd ?w)" "is_word d (last ?w)"
    by simp_all
  have len: "j = i + 4" using sh(1) length_substr [OF assms(1,2)] assms(1) by simp
  then have il: "i < length s" and j0: "0 < j" using assms(2) by simp_all
  have ne: "?w \<noteq> []" using sh(1) by auto
  have "hd ?w = s ! i" using il len by (simp add: substr_def hd_drop_conv_nth)
  then have wi: "is_word d (s ! i)" using sh(2) by simp
  have "last ?w = ?w ! 3" using sh(1) ne by (simp add: last_conv_nth)
  also have "\<dots> = s ! (i + 3)" using len assms(2) by (simp add: substr_def)
  finally have wj: "is_word d (s ! (j - 1))" using sh(3) len by (simp add: add.commute)
  have left: "at_boundary d s i \<longleftrightarrow> (take i s = [] \<or> \<not> is_word d (last (take i s)))"
  proof (cases "i = 0")
    case True
    then show ?thesis using wi il by (simp add: at_boundary_def)
  next
    case False
    have tn: "take i s \<noteq> []" using False il by auto
    then have "last (take i s) = take i s ! (length (take i s) - 1)" by (rule last_conv_nth)
    then have "last (take i s) = s ! (i - 1)" using il False by (simp add: min_absorb2)
    moreover note tn
    ultimately show ?thesis using wi il False by (simp add: at_boundary_def)
  qed
  have right: "at_boundary d s j \<longleftrightarrow> (drop j s = [] \<or> \<not> is_word d (hd (drop j s)))"
  proof (cases "j < length s")
    case True
    then show ?thesis using wj j0 by (simp add: at_boundary_def hd_drop_conv_nth)
  next
    case False
    then show ?thesis using wj j0 assms(2) by (simp add: at_boundary_def)
  qed
  show ?thesis by (simp add: left right standalone_def)
qed

lemma date_like_iff:
  "date_like d s \<longleftrightarrow>
     (\<exists>i j. i \<le> j \<and> j \<le> length s \<and>
        (textual_date d (substr s i j) \<or> numeric_date d (substr s i j)
         \<or> (year_1900_2099 d (substr s i j) \<and> standalone d (take i s) (drop j s))))"
proof
  assume "date_like d s"
  then obtain pre w post where p: "s = pre @ w @ post"
    "textual_date d w \<or> numeric_date d w \<or> (year_1900_2099 d w \<and> standalone d pre post)"
    by (auto simp: date_like_def)
  let ?i = "length pre" and ?j = "length pre + length w"
  have e: "substr s ?i ?j = w" "take ?i s = pre" "drop ?j s = post"
    using p(1) by (simp_all add: substr_def)
  have le: "?i \<le> ?j" "?j \<le> length s" using p(1) by simp_all
  have "?i \<le> ?j \<and> ?j \<le> length s \<and>
        (textual_date d (substr s ?i ?j) \<or> numeric_date d (substr s ?i ?j)
         \<or> (year_1900_2099 d (substr s ?i ?j) \<and> standalone d (take ?i s) (drop ?j s)))"
    unfolding e using p(2) le by blast
  then show "\<exists>i j. i \<le> j \<and> j \<le> length s \<and>
        (textual_date d (substr s i j) \<or> numeric_date d (substr s i j)
         \<or> (year_1900_2099 d (substr s i j) \<and> standalone d (take i s) (drop j s)))"
    by blast
next
  assume "\<exists>i j. i \<le> j \<and> j \<le> length s \<and>
        (textual_date d (substr s i j) \<or> numeric_date d (substr s i j)
         \<or> (year_1900_2099 d (substr s i j) \<and> standalone d (take i s) (drop j s)))"
  then obtain i j where ij: "i \<le> j" "j \<le> length s"
    "textual_date d (substr s i j) \<or> numeric_date d (substr s i j)
         \<or> (year_1900_2099 d (substr s i j) \<and> standalone d (take i s) (drop j s))"
    by blast
  have "s = take i s @ substr s i j @ drop j s"
  proof -
    have "drop i s = take (j - i) (drop i s) @ drop (j - i) (drop i s)"
      by (rule append_take_drop_id [symmetric])
    moreover have "drop (j - i) (drop i s) = drop j s" using ij(1) by simp
    ultimately have "drop i s = substr s i j @ drop j s" by (simp add: substr_def)
    moreover have "s = take i s @ drop i s" by simp
    ultimately show ?thesis by simp
  qed
  with ij(3) show "date_like d s" unfolding date_like_def by blast
qed

lemma search_DATE_PAT: "re_search d DATE_PAT s \<longleftrightarrow> date_like d s"
proof -
  have a: "(i \<le> length s \<and> j \<in> set (ends d True s DATE_RX i)) =
      (i \<le> j \<and> j \<le> length s \<and>
       (textual_date d (substr s i j) \<or> numeric_date d (substr s i j)
        \<or> (year_1900_2099 d (substr s i j) \<and> standalone d (take i s) (drop j s))))" for i j
  proof (cases "i \<le> length s")
    case True
    show ?thesis
      using ends_DATE [OF True, of j d] boundary_standalone [of i j s d] True by blast
  next
    case False
    then show ?thesis by auto
  qed
  have "re_search d DATE_PAT s \<longleftrightarrow>
      (\<exists>i j. i \<le> length s \<and> j \<in> set (ends d True s DATE_RX i))"
    by (simp add: re_search_iff DATE_PAT_def)
  then show ?thesis by (simp only: a date_like_iff)
qed

lemma keep_lines_filter:
  "keep_lines d p lines kept = kept @ filter (\<lambda>ln. 10 \<le> length ln \<and> re_search d p ln) lines"
  by (induction lines arbitrary: kept) (simp_all add: not_less)

lemma search_1899: "re_search d DATE_PAT (u ''1899'') = False"
  by code_simp

lemma search_1900: "re_search d DATE_PAT (u ''1900'') = True"
  by code_simp

lemma search_2099: "re_search d DATE_PAT (u ''2099'') = True"
  by code_simp

lemma example_searches:
  "re_search d DATE_PAT (u ''died may 4, 1877'') = True"
  "re_search d DATE_PAT (u ''born in 1899'') = False"
  "re_search d DATE_PAT (u ''on 3/14/59 x'') = True"
  by code_simp+

lemma example_filter:
  "keep_lines d DATE_PAT
     [u ''died may 4, 1877'', u ''d. 1900'', u ''born in 1899'', u ''on 3/14/59 x''] []
   = [u ''died may 4, 1877'', u ''on 3/14/59 x'']"
  by (simp add: example_searches) (simp add: u_def)

section \<open>The claims\<close>

text \<open>
  C1. The name guess of a line is the line cut at the first of the separators (hyphen, en
  dash, em dash, opening parenthesis, opening bracket), whitespace-collapsed and trimmed,
  as in \<open>name_guess("Jane Q. Public - March 4, 1977, Ohio") = "Jane Q. Public"\<close>. The
  program does not compute it: the pattern of line 120 does not compile, and on the
  example of the specification the call raises \<open>re.error\<close>, unterminated character set.
\<close>

theorem name_guess_example_raises:
  "name_guess latin1_db (u ''Jane Q. Public - March 4, 1977, Ohio'') = Inl Unterminated_character_set"
  by (rule name_guess_always_raises)

text \<open>
  C2. Formatting an entry never raises. The program raises for every kept line and every
  list of links, here for the line and the link of the specification's examples.
\<close>

theorem format_entry_example_raises:
  "format_entry latin1_db [u ''https://en.wikipedia.org/wiki/Jane_Q._Public'']
     (u ''Jane Q. Public - March 4, 1977, Ohio'') = Inl Unterminated_character_set"
  by (rule format_entry_always_raises)



text \<open>
  C8. Decoding the body of a response never raises. The encoding tried first is the
  declared one (\<open>r.encoding\<close>) unless it is missing or empty, else the sniffed one
  (\<open>r.apparent_encoding\<close>) unless it is missing or empty, else \<open>utf-8\<close>. The result is
  the text this encoding gives and, when that decoding raises (an unknown encoding name
  included), the Latin-1 text of the bytes, which has one code point for each byte.
\<close>

theorem decode_body_total:
  "decode_body ev r =
     Inr (case codec_decode ev
                 (case encoding r of
                    Some e \<Rightarrow>
                      if e \<noteq> [] then e
                      else (case apparent_encoding r of
                              Some a \<Rightarrow> if a \<noteq> [] then a else u ''utf-8''
                            | None \<Rightarrow> u ''utf-8'')
                  | None \<Rightarrow>
                      (case apparent_encoding r of
                         Some a \<Rightarrow> if a \<noteq> [] then a else u ''utf-8''
                       | None \<Rightarrow> u ''utf-8''))
                 (content r) of
            Inr text \<Rightarrow> text
          | Inl e \<Rightarrow> map unat (content r))"
proof -
  have enc: "chosen_encoding r =
      (case encoding r of
         Some e \<Rightarrow>
           if e \<noteq> [] then e
           else (case apparent_encoding r of
                   Some a \<Rightarrow> if a \<noteq> [] then a else u ''utf-8''
                 | None \<Rightarrow> u ''utf-8'')
       | None \<Rightarrow>
           (case apparent_encoding r of
              Some a \<Rightarrow> if a \<noteq> [] then a else u ''utf-8''
            | None \<Rightarrow> u ''utf-8''))"
    by (simp add: chosen_encoding_def str_or_def split: option.splits)
  have "decode_body ev r =
      Inr (case codec_decode ev (chosen_encoding r) (content r) of
             Inr text \<Rightarrow> text
           | Inl e \<Rightarrow> map unat (content r))"
    by (simp add: decode_body_def latin1_decode_def split: sum.splits)
  then show ?thesis by (simp only: enc)
qed

theorem decode_body_total_witness:
  "decode_body ascii_env
     \<lparr>content = [74, 246], encoding = Some (u ''ascii''), apparent_encoding = Some (u ''no-such-codec'')\<rparr>
   = Inr [74, 65533]
   \<and> decode_body ascii_env
     \<lparr>content = [74, 246], encoding = Some [], apparent_encoding = Some (u ''ascii'')\<rparr>
   = Inr [74, 65533]
   \<and> decode_body ascii_env
     \<lparr>content = [74, 246], encoding = None, apparent_encoding = Some (u ''ascii'')\<rparr>
   = Inr [74, 65533]
   \<and> decode_body ascii_env
     \<lparr>content = [74, 246], encoding = Some (u ''no-such-codec''), apparent_encoding = Some (u ''ascii'')\<rparr>
   = Inr [74, 246]
   \<and> decode_body ascii_env
     \<lparr>content = [74, 246], encoding = None, apparent_encoding = None\<rparr>
   = Inr [74, 246]"
  using
    decode_body_total [of ascii_env
      "\<lparr>content = [74, 246], encoding = Some (u ''ascii''), apparent_encoding = Some (u ''no-such-codec'')\<rparr>"]
    decode_body_total [of ascii_env
      "\<lparr>content = [74, 246], encoding = Some [], apparent_encoding = Some (u ''ascii'')\<rparr>"]
    decode_body_total [of ascii_env
      "\<lparr>content = [74, 246], encoding = None, apparent_encoding = Some (u ''ascii'')\<rparr>"]
    decode_body_total [of ascii_env
      "\<lparr>content = [74, 246], encoding = Some (u ''no-such-codec''), apparent_encoding = Some (u ''ascii'')\<rparr>"]
    decode_body_total [of ascii_env
      "\<lparr>content = [74, 246], encoding = None, apparent_encoding = None\<rparr>"]
  by (simp add: ascii_env_def ascii_replace_def u_def)

text \<open>
  C7. When a page is fetched and the filter keeps none of its lines, the report gets the
  banner of the source and a \<open>[DEBUG]\<close> block: the \<open>[DEBUG]\<close> line, at most the first 200
  normalized lines, each behind \<open>- RAW: \<close>, and a blank line. It gets no entry block, the
  count of entries stays, and the run goes on with the next URL.
\<close>

theorem no_kept_lines_debug_block:
  assumes "fetch_html ev url = Inr html"
    and "page_lines (db ev) (soup_text ev html) = Inr lines"
    and "keep_lines (db ev) date_pat lines [] = []"
  shows "process_source ev date_pat wiki_pat url st =
           Inr (append_out (source_banner url @ debug_block lines) st)
         \<and> process_all ev date_pat wiki_pat (url # urls) st =
           process_all ev date_pat wiki_pat urls
             (append_out (source_banner url @ debug_block lines) st)
         \<and> debug_block lines =
             u ''[DEBUG] No date-like lines found. First 200 raw lines from page:''
             # map (\<lambda>ln. u ''- RAW: '' @ ln) (take 200 lines) @ [[]]
         \<and> length (take 200 lines) \<le> 200
         \<and> filter (prefix (u ''- Name:'')) (source_banner url @ debug_block lines) = []
         \<and> total_lines (append_out (source_banner url @ debug_block lines) st) = total_lines st"
proof -
  have ps: "process_source ev date_pat wiki_pat url st =
      Inr (append_out (source_banner url @ debug_block lines) st)"
    using assms by (simp add: process_source_def Let_def)
  have banner: "filter (prefix (u ''- Name:'')) (source_banner url) = []"
    by (simp add: source_banner_def u_def eval_nat_numeral)
  have raw: "filter (prefix (u ''- Name:'')) (map (\<lambda>ln. u ''- RAW: '' @ ln) xs) = []" for xs
    by (induction xs) (simp_all add: u_def)
  have dbg: "filter (prefix (u ''- Name:'')) (debug_block lines) = []"
    unfolding debug_block_def by (simp add: raw) (simp add: u_def)
  show ?thesis
    by (simp add: ps banner dbg) (simp add: debug_block_def)
qed

theorem no_kept_lines_debug_block_witness:
  "process_source (example_env (\<lambda>url. page ''no dates on this page'')) DATE_PAT WIKI_PAT
      (u ''http://a'') \<lparr>out = [], total_lines = 0\<rparr> =
   Inr \<lparr>out = [replicate 90 61, u ''SOURCE: http://a'', replicate 90 61,
               u ''[DEBUG] No date-like lines found. First 200 raw lines from page:'',
               u ''- RAW: no dates on this page'', []],
        total_lines = 0\<rparr>"
proof -
  let ?ev = "example_env (\<lambda>url. page ''no dates on this page'')"
  let ?html = "u ''no dates on this page''"
  have f: "fetch_html ?ev (u ''http://a'') = Inr ?html"
    by (simp add: fetch_html_cases example_env_def page_def u_def)
  have l: "page_lines (db ?ev) (soup_text ?ev ?html) = Inr [u ''no dates on this page'']"
    using example_no_dates_lines by (simp add: example_env_def)
  have k: "keep_lines (db ?ev) DATE_PAT [u ''no dates on this page''] [] = []"
    using example_no_dates_kept by (simp add: example_env_def)
  show ?thesis
    using no_kept_lines_debug_block [OF f l k, of WIKI_PAT "\<lparr>out = [], total_lines = 0\<rparr>" "[]"]
    by (simp add: append_out_def source_banner_def debug_block_def u_def)
qed

text \<open>
  C9. Two runs on the same fetched content differ only in the time stamp. Whether a run
  raises, which exception, and the count it prints depend neither on the time stamp nor on
  the files the run finds; the file a finished run writes is the title line, the
  \<open>Generated:\<close> line with the time stamp, and a rest that is the same for every time stamp
  and for every state of the files, the report of an earlier run included.
\<close>

theorem report_determined_by_content:
  "\<exists>result. \<forall>generated fs.
     script ev generated fs =
       (case result of
          Inl e \<Rightarrow> (Raised e, fs)
        | Inr (n, rest) \<Rightarrow>
            (Done n,
             fs(OUTFILE \<mapsto> u ''Seeing-Stars Summary Extract'' @ 10 # u ''Generated: '' @ generated
                              @ 10 # rest)))"
proof -
  let ?body = "process_all ev DATE_PAT WIKI_PAT URLS \<lparr>out = [], total_lines = 0\<rparr>"
  have run: "process_all ev DATE_PAT WIKI_PAT URLS \<lparr>out = header g, total_lines = 0\<rparr> =
      map_sum id (shift (header g)) ?body" for g
    using process_all_shift [of ev DATE_PAT WIKI_PAT URLS "header g" "\<lparr>out = [], total_lines = 0\<rparr>"]
    by (simp add: shift_def)
  show ?thesis
  proof (cases ?body)
    case (Inl e)
    then have "\<forall>generated fs. script ev generated fs = (Raised e, fs)"
      by (simp add: script_eq_main main_def run)
    then show ?thesis
      by (intro exI [of _ "Inl e"]) simp
  next
    case (Inr st)
    let ?rest = "join_nl (drop 2 (header []) @ out st)"
    have "join_nl (header g @ out st) =
        u ''Seeing-Stars Summary Extract'' @ 10 # u ''Generated: '' @ g @ 10 # ?rest" for g
      by (simp add: header_def)
    then have "\<forall>generated fs. script ev generated fs =
        (Done (total_lines st),
         fs(OUTFILE \<mapsto> u ''Seeing-Stars Summary Extract'' @ 10 # u ''Generated: '' @ generated
                          @ 10 # ?rest))"
      using Inr by (simp add: script_eq_main main_def run shift_def)
    then show ?thesis
      by (intro exI [of _ "Inr (total_lines st, ?rest)"]) simp
  qed
qed

theorem report_determined_by_content_witness:
  "\<exists>rest. \<forall>generated fs.
     script (example_env (\<lambda>url. refused)) generated fs =
       (Done 0,
        fs(OUTFILE \<mapsto> u ''Seeing-Stars Summary Extract'' @ 10 # u ''Generated: '' @ generated @ 10 # rest))"
proof -
  let ?ev = "example_env (\<lambda>url. refused)"
  have f: "fetch_html ?ev url = Inl (Fetch_request (Request_exception (u ''Connection refused'')))" for url
    by (simp add: fetch_html_def example_env_def refused_def)
  have "\<exists>st. process_all ?ev DATE_PAT WIKI_PAT urls st0 = Inr st \<and> total_lines st = total_lines st0" for urls st0
  proof (induction urls arbitrary: st0)
    case Nil
    show ?case by simp
  next
    case (Cons url urls)
    from Cons [of "append_out (source_banner url @
        [u ''[ERROR] Could not fetch page: '' @ u ''Connection refused'', []]) st0"]
    show ?case by (simp add: process_source_failed [OF f])
  qed
  then obtain st where "process_all ?ev DATE_PAT WIKI_PAT URLS \<lparr>out = header [], total_lines = 0\<rparr> = Inr st"
    and "total_lines st = 0"
    by force
  then have d0: "fst (script ?ev [] Map.empty) = Done 0"
    by (simp add: script_eq_main main_def)
  from report_determined_by_content [of ?ev] obtain result where
    R: "\<forall>generated fs. script ?ev generated fs =
       (case result of
          Inl e \<Rightarrow> (Raised e, fs)
        | Inr (n, rest) \<Rightarrow>
            (Done n,
             fs(OUTFILE \<mapsto> u ''Seeing-Stars Summary Extract'' @ 10 # u ''Generated: '' @ generated
                              @ 10 # rest)))"
    by blast
  show ?thesis
  proof (cases result)
    case (Inl e)
    with R have "fst (script ?ev [] Map.empty) = Raised e" by simp
    with d0 show ?thesis by simp
  next
    case (Inr p)
    obtain n rest where p: "p = (n, rest)" by (cases p)
    from R Inr p have "fst (script ?ev [] Map.empty) = Done n" by simp
    with d0 have "n = 0" by simp
    with R Inr p show ?thesis by (intro exI [of _ rest]) simp
  qed
qed



text \<open>
  C5. For every page text the normalizer returns the cleaned segments between the newlines
  that are not empty, in the order of the text. Each of these lines is non-empty, begins
  and ends with a character that is not whitespace, and has no two whitespace characters
  next to each other.
\<close>

theorem normalizer_lines:
  "\<exists>lines. page_lines d page_text = Inr lines
     \<and> lines = filter (\<lambda>l. l \<noteq> []) (map spec_clean (split_on 10 page_text))
     \<and> (\<forall>l \<in> set lines.
           l \<noteq> [] \<and> \<not> is_space (hd l) \<and> \<not> is_space (last l)
           \<and> (\<forall>i. Suc i < length l \<longrightarrow> \<not> (is_space (l ! i) \<and> is_space (l ! Suc i))))"
  using spec_clean_normalized by (auto simp: page_lines_eq)

theorem normalizer_lines_witness:
  "page_lines latin1_db (9 # u ''  Jane   Doe '' @ [10, 10, 160] @ u ''born 1900'' @ [13, 10]) =
     Inr [u ''Jane Doe'', u ''born 1900'']
   \<and> \<not> is_space (hd (u ''Jane Doe'')) \<and> \<not> is_space (last (u ''born 1900''))"
proof -
  let ?text = "9 # u ''  Jane   Doe '' @ [10, 10, 160] @ u ''born 1900'' @ [13, 10]"
  have ev: "page_lines latin1_db ?text = Inr [u ''Jane Doe'', u ''born 1900'']"
    by (simp add: page_lines_eq spec_clean_def strip_def strip_by_def is_space_def u_def)
  from normalizer_lines [of latin1_db ?text] obtain lines
    where l: "page_lines latin1_db ?text = Inr lines"
      and p: "\<forall>l \<in> set lines. l \<noteq> [] \<and> \<not> is_space (hd l) \<and> \<not> is_space (last l)
           \<and> (\<forall>i. Suc i < length l \<longrightarrow> \<not> (is_space (l ! i) \<and> is_space (l ! Suc i)))"
    by blast
  from l ev have "lines = [u ''Jane Doe'', u ''born 1900'']" by simp
  with p have "\<not> is_space (hd (u ''Jane Doe''))" "\<not> is_space (last (u ''born 1900''))"
    by simp_all
  with ev show ?thesis by simp
qed

text \<open>
  C6. The Wikipedia link of an entry is the first link of the page's collection, in the
  order of the collection, whose lower-case form contains the token of the guessed name;
  it is the empty string when the token is empty or no link contains it.
\<close>

theorem wikipedia_link_first_match:
  "wiki_guess d wiki_links name =
     Inr (if spec_token d name = [] then []
          else case find (\<lambda>w. sublist (spec_token d name) (str_lower d w)) wiki_links of
                 None \<Rightarrow> []
               | Some w \<Rightarrow> w)"
  by (simp add: wiki_guess_def name_token_eq first_link_find)

theorem wikipedia_link_first_match_witness:
  "wiki_guess latin1_db
     [u ''https://en.wikipedia.org/wiki/Jane_Q._Public'', u ''https://en.wikipedia.org/wiki/Jane_Q_Public'']
     (u ''Jane Q. Public'')
   = Inr (u ''https://en.wikipedia.org/wiki/Jane_Q_Public'')
   \<and> wiki_guess latin1_db [u ''https://en.wikipedia.org/wiki/Jane_Q._Public''] (u ''Jane Q. Public'')
   = Inr []"
  using wikipedia_link_first_match [of latin1_db
      "[u ''https://en.wikipedia.org/wiki/Jane_Q._Public'', u ''https://en.wikipedia.org/wiki/Jane_Q_Public'']"
      "u ''Jane Q. Public''"]
    wikipedia_link_first_match [of latin1_db
      "[u ''https://en.wikipedia.org/wiki/Jane_Q._Public'']" "u ''Jane Q. Public''"]
    example_link_with_dot example_link_plain
  by (simp add: example_token) (simp add: u_def)

text \<open>
  C3. The Entry Filter keeps exactly the lines of at least 10 characters that contain a
  substring of one of the three date shapes, in their order and unchanged; a match of the
  date pattern is the same as containing such a substring. The year 1899 standing alone
  does not match; 1900 and 2099 standing alone match.
\<close>

theorem entry_filter_keeps_date_like_lines:
  "keep_lines d DATE_PAT lines [] = filter (\<lambda>ln. 10 \<le> length ln \<and> date_like d ln) lines
   \<and> re_search d DATE_PAT ln = date_like d ln
   \<and> \<not> date_like d (u ''1899'') \<and> date_like d (u ''1900'') \<and> date_like d (u ''2099'')"
  using search_1899 [of d] search_1900 [of d] search_2099 [of d]
  by (simp add: keep_lines_filter search_DATE_PAT)

theorem entry_filter_keeps_date_like_lines_witness:
  "filter (\<lambda>ln. 10 \<le> length ln \<and> date_like latin1_db ln)
     [u ''died may 4, 1877'', u ''d. 1900'', u ''born in 1899'', u ''on 3/14/59 x'']
   = [u ''died may 4, 1877'', u ''on 3/14/59 x'']"
  using entry_filter_keeps_date_like_lines [of latin1_db
      "[u ''died may 4, 1877'', u ''d. 1900'', u ''born in 1899'', u ''on 3/14/59 x'']"]
    example_filter
  by simp

end
